theory Spec2Isabelle
  imports Main
begin

section \<open>The board engine of \<open>proxx_game.py\<close>\<close>

text \<open>
  The program is a minesweeper-style game.  Python integers are modelled as \<open>int\<close>,
  Python lists as HOL lists read and written with Python's indexing rules (a negative
  index counts from the end, an index out of range raises \<open>IndexError\<close>), and every
  \<open>raise\<close> of the program is a value \<open>Inl e\<close> of the result type \<open>error + 'a\<close>.
  The objects of the program (the board, its cells) are mutated in place; the model
  passes the board explicitly and returns the updated board.  Every cell object sits at
  exactly one position of the grid (the grid is built by a comprehension that creates a
  fresh \<open>Cell\<close> per position), so a reference to a cell obtained with \<open>at(coord)\<close>
  is represented by that coordinate.
\<close>

subsection \<open>Data model\<close>

datatype GameStatus = IN_GAME | LOST | WIN

definition SMALLEST_BOARD_SIZE :: int where
  "SMALLEST_BOARD_SIZE = 3"

datatype Coord = Coord (cx: int) (cy: int)

record Cell =
  is_hole :: bool
  holes_around :: int
  is_opened :: bool

text \<open>\<open>Cell.__init__\<close> with its default argument \<open>is_hole = False\<close>.\<close>

definition Cell_init :: Cell where
  "Cell_init = \<lparr>is_hole = False, holes_around = 0, is_opened = False\<rparr>"

record HolesGenerator =
  gen_width :: int
  gen_height :: int
  gen_holes_num :: int

definition HolesGenerator_init :: "int \<Rightarrow> int \<Rightarrow> HolesGenerator" where
  "HolesGenerator_init sz holes_num =
     \<lparr>gen_width = sz, gen_height = sz, gen_holes_num = holes_num\<rparr>"

record Board =
  width :: int
  height :: int
  status :: GameStatus
  cells_to_open :: int
  board :: "Cell list list"

text \<open>
  The exceptions the program can raise: the two \<open>ValueError\<close>s of \<open>Board.__init__\<close>
  (told apart by their message), the \<open>ValueError\<close> of \<open>random.sample\<close> and the
  \<open>IndexError\<close> of list indexing.
\<close>

datatype error =
    ValueError_size_too_small
  | ValueError_too_many_holes
  | ValueError_sample
  | IndexError

subsection \<open>Python lists and loops\<close>

text \<open>\<open>range(n)\<close> for an integer \<open>n\<close>: empty when \<open>n \<le> 0\<close>.\<close>

definition py_range :: "int \<Rightarrow> int list" where
  "py_range n = map int [0..<nat n]"

text \<open>The position a Python index denotes in a list of length \<open>n\<close>, if any.\<close>

definition py_pos :: "nat \<Rightarrow> int \<Rightarrow> nat option" where
  "py_pos n i =
     (let j = (if i < 0 then int n + i else i)
      in if 0 \<le> j \<and> j < int n then Some (nat j) else None)"

definition py_index :: "'a list \<Rightarrow> int \<Rightarrow> error + 'a" where
  "py_index xs i = (case py_pos (length xs) i of None \<Rightarrow> Inl IndexError | Some j \<Rightarrow> Inr (xs ! j))"

text \<open>A \<open>for\<close> loop whose body may raise: the first error ends the loop.\<close>

fun for_each :: "('a \<Rightarrow> 's \<Rightarrow> error + 's) \<Rightarrow> 'a list \<Rightarrow> 's \<Rightarrow> error + 's" where
  "for_each body [] s = Inr s"
| "for_each body (a # as) s =
     (case body a s of Inl e \<Rightarrow> Inl e | Inr s' \<Rightarrow> for_each body as s')"

subsection \<open>Cells of the board\<close>

text \<open>\<open>Board.at\<close>: \<open>self.board[coord.y][coord.x]\<close>.\<close>

definition at :: "Board \<Rightarrow> Coord \<Rightarrow> error + Cell" where
  "at b coord =
     (case py_index (board b) (cy coord) of
        Inl e \<Rightarrow> Inl e
      | Inr row \<Rightarrow> py_index row (cx coord))"

text \<open>
  An assignment to a field of the cell object \<open>self.at(coord)\<close>: the cell at that
  position of the grid is replaced by the changed cell.
\<close>

definition modify_at :: "Board \<Rightarrow> Coord \<Rightarrow> (Cell \<Rightarrow> Cell) \<Rightarrow> error + Board" where
  "modify_at b coord f =
     (case py_pos (length (board b)) (cy coord) of
        None \<Rightarrow> Inl IndexError
      | Some i \<Rightarrow>
         (case py_pos (length (board b ! i)) (cx coord) of
            None \<Rightarrow> Inl IndexError
          | Some j \<Rightarrow> Inr (b\<lparr>board := (board b)[i := (board b ! i)[j := f (board b ! i ! j)]]\<rparr>)))"

subsection \<open>The generator of the holes\<close>

text \<open>
  \<open>random.sample(population, k)\<close> belongs to Python's standard library, not to the
  program.  It raises \<open>ValueError\<close> unless \<open>0 \<le> k \<le> len(population)\<close> and otherwise
  returns the items at \<open>k\<close> pairwise different positions of the population.  It is
  modelled by the library's pool algorithm: the \<open>i\<close>-th item is \<open>pool[j]\<close> for a random
  \<open>j\<close> below the number of items left, and the last item left moves into the vacancy.
  The random numbers are an explicit stream \<open>rnd\<close>; the \<open>i\<close>-th call of \<open>randbelow(m)\<close> is
  \<open>rnd i mod m\<close>.
\<close>

fun sample_pool :: "(nat \<Rightarrow> nat) \<Rightarrow> nat \<Rightarrow> 'a list \<Rightarrow> nat \<Rightarrow> 'a list" where
  "sample_pool rnd i pool 0 = []"
| "sample_pool rnd i pool (Suc k) =
     (let j = rnd i mod length pool
      in pool ! j # sample_pool rnd (Suc i) (butlast (pool[j := last pool])) k)"

definition random_sample :: "(nat \<Rightarrow> nat) \<Rightarrow> 'a list \<Rightarrow> int \<Rightarrow> error + 'a list" where
  "random_sample rnd population k =
     (if \<not> (0 \<le> k \<and> k \<le> int (length population)) then Inl ValueError_sample
      else Inr (sample_pool rnd 0 population (nat k)))"

text \<open>\<open>HolesGenerator.generate_holes\<close>.\<close>

definition available_places :: "HolesGenerator \<Rightarrow> Coord \<Rightarrow> Coord list" where
  "available_places g skip_cell =
     [Coord x y. x \<leftarrow> py_range (gen_width g), y \<leftarrow> py_range (gen_height g), Coord x y \<noteq> skip_cell]"

definition generate_holes :: "HolesGenerator \<Rightarrow> (nat \<Rightarrow> nat) \<Rightarrow> Coord \<Rightarrow> error + Coord list" where
  "generate_holes g rnd skip_cell = random_sample rnd (available_places g skip_cell) (gen_holes_num g)"

subsection \<open>Building the board\<close>

text \<open>\<open>Board.neighbors\<close>: the relative coordinates of the adjacent cells.\<close>

definition neighbors :: "Coord list" where
  "neighbors = [Coord x y. x \<leftarrow> [-1, 0, 1], y \<leftarrow> [-1, 0, 1], \<not> (x = 0 \<and> y = 0)]"

text \<open>\<open>Board._get_adjacent_coords\<close>.\<close>

definition get_adjacent_coords :: "Board \<Rightarrow> Coord \<Rightarrow> Coord list" where
  "get_adjacent_coords b coord =
     [adjacent_coord.
        neighbor \<leftarrow> neighbors,
        adjacent_coord \<leftarrow> [Coord (cx neighbor + cx coord) (cy neighbor + cy coord)],
        \<not> (cx adjacent_coord < 0 \<or> cx adjacent_coord \<ge> width b
           \<or> cy adjacent_coord < 0 \<or> cy adjacent_coord \<ge> height b)]"

text \<open>\<open>Board._get_adjacent_cells\<close>: the list comprehension raises when an \<open>at\<close> raises.\<close>

fun cells_at :: "Board \<Rightarrow> Coord list \<Rightarrow> error + Cell list" where
  "cells_at b [] = Inr []"
| "cells_at b (c # cs) =
     (case at b c of
        Inl e \<Rightarrow> Inl e
      | Inr cell \<Rightarrow> (case cells_at b cs of Inl e \<Rightarrow> Inl e | Inr cells \<Rightarrow> Inr (cell # cells)))"

definition get_adjacent_cells :: "Board \<Rightarrow> Coord \<Rightarrow> error + Cell list" where
  "get_adjacent_cells b coord = cells_at b (get_adjacent_coords b coord)"

text \<open>\<open>Board._generate_holes\<close>, given the list the generator returned.\<close>

definition mark_holes :: "Coord list \<Rightarrow> Board \<Rightarrow> error + Board" where
  "mark_holes holes b =
     for_each (\<lambda>hole_coord b. modify_at b hole_coord (\<lambda>hole_cell. hole_cell\<lparr>is_hole := True\<rparr>)) holes b"

definition generate_holes_of_board ::
  "Board \<Rightarrow> HolesGenerator \<Rightarrow> (nat \<Rightarrow> nat) \<Rightarrow> Coord \<Rightarrow> error + Board" where
  "generate_holes_of_board b holes_generator rnd first_cell =
     (case generate_holes holes_generator rnd first_cell of
        Inl e \<Rightarrow> Inl e
      | Inr holes \<Rightarrow> mark_holes holes b)"

text \<open>\<open>Board._generate_holes_adjacent\<close>: the body of the two nested loops, then the loops.\<close>

definition count_holes_around :: "Coord \<Rightarrow> Board \<Rightarrow> error + Board" where
  "count_holes_around coord b =
     (case at b coord of
        Inl e \<Rightarrow> Inl e
      | Inr cell \<Rightarrow>
          if is_hole cell then Inr b
          else (case get_adjacent_cells b coord of
                  Inl e \<Rightarrow> Inl e
                | Inr cells \<Rightarrow>
                    modify_at b coord
                      (\<lambda>cell. cell\<lparr>holes_around :=
                         sum_list (map (\<lambda>adjacent_cell. if is_hole adjacent_cell then 1 else 0) cells)\<rparr>)))"

definition generate_holes_adjacent :: "Board \<Rightarrow> error + Board" where
  "generate_holes_adjacent b =
     for_each (\<lambda>y. for_each (\<lambda>x. count_holes_around (Coord x y)) (py_range (width b)))
       (py_range (height b)) b"

text \<open>\<open>Board._generate_board\<close>.\<close>

definition generate_board ::
  "Board \<Rightarrow> HolesGenerator \<Rightarrow> (nat \<Rightarrow> nat) \<Rightarrow> Coord \<Rightarrow> error + Board" where
  "generate_board b holes_generator rnd first_coord =
     (case generate_holes_of_board b holes_generator rnd first_coord of
        Inl e \<Rightarrow> Inl e
      | Inr b' \<Rightarrow> generate_holes_adjacent b')"

subsection \<open>Opening cells\<close>

text \<open>
  \<open>Board._open_cell\<close>, for the cell object at \<open>coord\<close>: the caller has read the cell
  with \<open>at(coord)\<close>, which is where an \<open>IndexError\<close> comes from.
\<close>

definition open_cell :: "Board \<Rightarrow> Coord \<Rightarrow> error + Board" where
  "open_cell b coord =
     (case at b coord of
        Inl e \<Rightarrow> Inl e
      | Inr cell \<Rightarrow>
          if is_opened cell then Inr b
          else (case modify_at b coord (\<lambda>cell. cell\<lparr>is_opened := True\<rparr>) of
                  Inl e \<Rightarrow> Inl e
                | Inr b1 \<Rightarrow>
                    let b2 = b1\<lparr>cells_to_open := cells_to_open b1 - 1\<rparr>
                    in Inr (if cells_to_open b2 = 0 then b2\<lparr>status := WIN\<rparr> else b2)))"

text \<open>
  The \<open>for\<close> loop over the adjacent coordinates in \<open>Board._open_cells\<close>: the state of
  the loop is the queue.
\<close>

definition enqueue_adjacent :: "Board \<Rightarrow> Coord \<Rightarrow> Coord list \<Rightarrow> error + Coord list" where
  "enqueue_adjacent b coord queue =
     for_each
       (\<lambda>adjacent_coord queue.
          case at b adjacent_coord of
            Inl e \<Rightarrow> Inl e
          | Inr adjacent_cell \<Rightarrow>
              if is_hole adjacent_cell then Inr queue
              else if is_opened adjacent_cell then Inr queue
              else Inr (queue @ [adjacent_coord]))
       (get_adjacent_coords b coord) queue"

text \<open>
  One round of the \<open>while\<close> loop of \<open>Board._open_cells\<close>, for the coordinate \<open>coord\<close>
  just taken from the queue and the rest of the queue.
\<close>

definition open_round :: "Board \<Rightarrow> Coord \<Rightarrow> Coord list \<Rightarrow> error + Board \<times> Coord list" where
  "open_round b coord queue =
     (case open_cell b coord of
        Inl e \<Rightarrow> Inl e
      | Inr b' \<Rightarrow>
         (case at b' coord of
            Inl e \<Rightarrow> Inl e
          | Inr cell \<Rightarrow>
              if holes_around cell \<noteq> 0 then Inr (b', queue)
              else (case enqueue_adjacent b' coord queue of
                      Inl e \<Rightarrow> Inl e
                    | Inr queue' \<Rightarrow> Inr (b', queue'))))"

subsection \<open>Termination of the work-list loop\<close>

text \<open>The number of cells of the grid that satisfy a predicate.\<close>

definition count_cells :: "(Cell \<Rightarrow> bool) \<Rightarrow> Board \<Rightarrow> nat" where
  "count_cells P b = length (filter P (concat (board b)))"

text \<open>A coordinate in the queue whose cell is already opened.\<close>

definition stale :: "Board \<Rightarrow> Coord \<Rightarrow> bool" where
  "stale b coord = (case at b coord of Inl e \<Rightarrow> False | Inr cell \<Rightarrow> is_opened cell)"

lemma py_pos_less: "py_pos n i = Some j \<Longrightarrow> j < n"
  by (auto simp: py_pos_def Let_def split: if_splits)

lemma filter_update_length:
  "j < length xs \<Longrightarrow>
   length (filter P (xs[j := v])) + (if P (xs ! j) then 1 else 0) =
   length (filter P xs) + (if P v then 1 else 0)"
proof (induction xs arbitrary: j)
  case Nil
  then show ?case by simp
next
  case (Cons a xs)
  then show ?case by (cases j) auto
qed

lemma filter_concat_update_length:
  "i < length xss \<Longrightarrow> j < length (xss ! i) \<Longrightarrow>
   length (filter P (concat (xss[i := (xss ! i)[j := v]]))) + (if P (xss ! i ! j) then 1 else 0) =
   length (filter P (concat xss)) + (if P v then 1 else 0)"
proof (induction xss arbitrary: i)
  case Nil
  then show ?case by simp
next
  case (Cons xs xss)
  show ?case
  proof (cases i)
    case 0
    with Cons.prems filter_update_length [of j xs P v] show ?thesis by auto
  next
    case (Suc k)
    with Cons.prems Cons.IH [of k] show ?thesis by auto
  qed
qed

lemma at_Inr_iff:
  "at b c = Inr cell \<longleftrightarrow>
   (\<exists>i j. py_pos (length (board b)) (cy c) = Some i \<and> py_pos (length (board b ! i)) (cx c) = Some j
      \<and> cell = board b ! i ! j)"
  by (auto simp: at_def py_index_def split: option.splits sum.splits)

lemma modify_at_Inr:
  assumes "modify_at b c f = Inr b'"
  obtains i j where "py_pos (length (board b)) (cy c) = Some i"
    and "py_pos (length (board b ! i)) (cx c) = Some j"
    and "b' = b\<lparr>board := (board b)[i := (board b ! i)[j := f (board b ! i ! j)]]\<rparr>"
  using assms by (auto simp: modify_at_def split: option.splits)

lemma modify_at_count:
  assumes "modify_at b c f = Inr b'"
  shows "\<exists>cell. at b c = Inr cell \<and>
     count_cells P b' + (if P cell then 1 else 0) = count_cells P b + (if P (f cell) then 1 else 0)"
proof -
  from assms obtain i j where i: "py_pos (length (board b)) (cy c) = Some i"
    and j: "py_pos (length (board b ! i)) (cx c) = Some j"
    and b': "b' = b\<lparr>board := (board b)[i := (board b ! i)[j := f (board b ! i ! j)]]\<rparr>"
    by (rule modify_at_Inr)
  have "at b c = Inr (board b ! i ! j)" using i j by (simp add: at_Inr_iff)
  moreover have "i < length (board b)" "j < length (board b ! i)"
    using i j by (auto dest: py_pos_less)
  ultimately show ?thesis
    using filter_concat_update_length [of i "board b" j P "f (board b ! i ! j)"] b'
    by (simp add: count_cells_def)
qed


lemma for_each_append_rule:
  assumes "for_each body as q = Inr q'"
    and "\<And>a q q1. a \<in> set as \<Longrightarrow> body a q = Inr q1 \<Longrightarrow> q1 = q \<or> (q1 = q @ [a] \<and> P a)"
  shows "\<exists>ex. q' = q @ ex \<and> (\<forall>a \<in> set ex. P a) \<and> set ex \<subseteq> set as"
  using assms
proof (induction as arbitrary: q)
  case Nil
  then show ?case by simp
next
  case (Cons a as)
  from Cons.prems(1) obtain q1 where q1: "body a q = Inr q1" and rest: "for_each body as q1 = Inr q'"
    by (auto split: sum.splits)
  from Cons.IH [OF rest] Cons.prems(2) obtain ex where
    ex: "q' = q1 @ ex" "\<forall>a \<in> set ex. P a" "set ex \<subseteq> set as"
    by auto
  from Cons.prems(2) [OF _ q1] have "q1 = q \<or> (q1 = q @ [a] \<and> P a)" by simp
  then show ?case
  proof
    assume "q1 = q"
    with ex show ?thesis by auto
  next
    assume "q1 = q @ [a] \<and> P a"
    with ex have "q' = q @ (a # ex)" "\<forall>a \<in> set (a # ex). P a" "set (a # ex) \<subseteq> set (a # as)"
      by auto
    then show ?thesis by blast
  qed
qed

lemma enqueue_adjacent_Inr:
  assumes "enqueue_adjacent b coord queue = Inr queue'"
  shows "\<exists>ex. queue' = queue @ ex \<and> set ex \<subseteq> set (get_adjacent_coords b coord) \<and>
     (\<forall>a \<in> set ex. \<exists>cell. at b a = Inr cell \<and> \<not> is_hole cell \<and> \<not> is_opened cell)"
proof -
  let ?P = "\<lambda>a. \<exists>cell. at b a = Inr cell \<and> \<not> is_hole cell \<and> \<not> is_opened cell"
  have "\<exists>ex. queue' = queue @ ex \<and> (\<forall>a \<in> set ex. ?P a) \<and> set ex \<subseteq> set (get_adjacent_coords b coord)"
  proof (rule for_each_append_rule [OF assms [unfolded enqueue_adjacent_def]])
    fix a q q1
    assume "(case at b a of Inl e \<Rightarrow> Inl e
         | Inr adjacent_cell \<Rightarrow>
             if is_hole adjacent_cell then Inr q
             else if is_opened adjacent_cell then Inr q else Inr (q @ [a])) = Inr q1"
    then show "q1 = q \<or> (q1 = q @ [a] \<and> ?P a)"
      by (cases "at b a") (auto split: if_splits)
  qed
  then show ?thesis by blast
qed

lemma open_cell_Inr:
  assumes "open_cell b c = Inr b'"
  shows "\<exists>cell. at b c = Inr cell \<and>
     (if is_opened cell then b' = b
      else count_cells (\<lambda>cell. \<not> is_opened cell) b' < count_cells (\<lambda>cell. \<not> is_opened cell) b)"
proof -
  from assms obtain cell where cell: "at b c = Inr cell"
    by (auto simp: open_cell_def split: sum.splits)
  show ?thesis
  proof (cases "is_opened cell")
    case True
    with assms cell show ?thesis by (simp add: open_cell_def)
  next
    case False
    with assms cell obtain b1 where b1: "modify_at b c (\<lambda>cell. cell\<lparr>is_opened := True\<rparr>) = Inr b1"
      and b': "board b' = board b1"
      by (auto simp: open_cell_def Let_def split: sum.splits if_splits)
    from modify_at_count [OF b1, of "\<lambda>cell. \<not> is_opened cell"] cell False
    have "count_cells (\<lambda>cell. \<not> is_opened cell) b1 < count_cells (\<lambda>cell. \<not> is_opened cell) b"
      by simp
    with b' cell False show ?thesis by (simp add: count_cells_def)
  qed
qed

lemma open_round_decreases:
  assumes "open_round b c rest = Inr (b', queue')"
  shows "count_cells (\<lambda>cell. \<not> is_opened cell) b' < count_cells (\<lambda>cell. \<not> is_opened cell) b \<or>
     (b' = b \<and> stale b c \<and> length (filter (stale b) queue') = length (filter (stale b) rest))"
proof -
  from assms obtain b1 where b1: "open_cell b c = Inr b1"
    by (auto simp: open_round_def split: sum.splits)
  from assms b1 have b': "b' = b1"
    by (auto simp: open_round_def split: sum.splits if_splits)
  from open_cell_Inr [OF b1] obtain cell where cell: "at b c = Inr cell"
    and alt: "if is_opened cell then b1 = b
      else count_cells (\<lambda>cell. \<not> is_opened cell) b1 < count_cells (\<lambda>cell. \<not> is_opened cell) b"
    by blast
  show ?thesis
  proof (cases "is_opened cell")
    case False
    with alt b' show ?thesis by simp
  next
    case True
    with alt b' have same: "b' = b" by simp
    from True cell have st: "stale b c" by (simp add: stale_def)
    from assms b1 same b' have "queue' = rest \<or> enqueue_adjacent b c rest = Inr queue'"
      by (auto simp: open_round_def split: sum.splits if_splits)
    then have "length (filter (stale b) queue') = length (filter (stale b) rest)"
    proof
      assume "queue' = rest"
      then show ?thesis by simp
    next
      assume "enqueue_adjacent b c rest = Inr queue'"
      from enqueue_adjacent_Inr [OF this] obtain ex where
        "queue' = rest @ ex" "\<forall>a \<in> set ex. \<exists>cell. at b a = Inr cell \<and> \<not> is_hole cell \<and> \<not> is_opened cell"
        by blast
      then have "queue' = rest @ ex" "filter (stale b) ex = []"
        by (auto simp: stale_def filter_empty_conv)
      then show ?thesis by simp
    qed
    with same st show ?thesis by simp
  qed
qed

text \<open>
  The \<open>while queue:\<close> loop of \<open>Board._open_cells\<close>: \<open>queue.popleft()\<close> takes the head of
  the queue.  A round either opens a cell, or takes an opened cell out of the queue and
  adds only unopened ones; so the loop ends.
\<close>

function open_cells_loop :: "Board \<Rightarrow> Coord list \<Rightarrow> error + Board" where
  "open_cells_loop b [] = Inr b"
| "open_cells_loop b (coord # queue) =
     (case open_round b coord queue of
        Inl e \<Rightarrow> Inl e
      | Inr (b', queue') \<Rightarrow> open_cells_loop b' queue')"
  by pat_completeness auto
termination
proof (relation "measures [\<lambda>(b, queue). count_cells (\<lambda>cell. \<not> is_opened cell) b,
                           \<lambda>(b, queue). length (filter (stale b) queue)]")
  show "wf (measures [\<lambda>(b, queue). count_cells (\<lambda>cell. \<not> is_opened cell) b,
                      \<lambda>(b, queue). length (filter (stale b) queue)])"
    by simp
next
  fix b coord queue r b' queue'
  assume "open_round b coord queue = Inr r" "(b', queue') = r"
  then have "open_round b coord queue = Inr (b', queue')" by simp
  from open_round_decreases [OF this]
  show "((b', queue'), (b, coord # queue))
      \<in> measures [\<lambda>(b, queue). count_cells (\<lambda>cell. \<not> is_opened cell) b,
                   \<lambda>(b, queue). length (filter (stale b) queue)]"
    by auto
qed

text \<open>
  The reveal with any other traversal order of the work-list (the specification's
  ``any valid traversal order''): the same round, for the entry of the work-list at a
  position chosen by \<open>pick\<close> from the board and the work-list.  The first entry always
  is the program's FIFO order, the last entry always is a LIFO (depth-first) order.
\<close>

function open_cells_in_order :: "(Board \<Rightarrow> Coord list \<Rightarrow> nat) \<Rightarrow> Board \<Rightarrow> Coord list \<Rightarrow> error + Board" where
  "open_cells_in_order pick b queue =
     (if queue = [] then Inr b
      else let i = pick b queue mod length queue
           in case open_round b (queue ! i) (take i queue @ drop (Suc i) queue) of
                Inl e \<Rightarrow> Inl e
              | Inr (b', queue') \<Rightarrow> open_cells_in_order pick b' queue')"
  by pat_completeness auto
termination
proof (relation "measures [\<lambda>(pick, b, queue). count_cells (\<lambda>cell. \<not> is_opened cell) b,
                           \<lambda>(pick, b, queue). length (filter (stale b) queue)]")
  show "wf (measures [\<lambda>(pick, b, queue). count_cells (\<lambda>cell. \<not> is_opened cell) b,
                      \<lambda>(pick, b, queue). length (filter (stale b) queue)])"
    by simp
next
  fix pick :: "Board \<Rightarrow> Coord list \<Rightarrow> nat" and b queue i r b' queue'
  assume ne: "queue \<noteq> []" and i: "i = pick b queue mod length queue"
    and "open_round b (queue ! i) (take i queue @ drop (Suc i) queue) = Inr r" "(b', queue') = r"
  then have r: "open_round b (queue ! i) (take i queue @ drop (Suc i) queue) = Inr (b', queue')"
    by simp
  from ne i have "i < length queue" by simp
  then have "queue = take i queue @ queue ! i # drop (Suc i) queue"
    by (rule id_take_nth_drop)
  then have "filter (stale b) queue =
      filter (stale b) (take i queue) @ filter (stale b) (queue ! i # drop (Suc i) queue)"
    by (metis filter_append)
  then have "length (filter (stale b) queue) =
      length (filter (stale b) (take i queue @ drop (Suc i) queue)) + (if stale b (queue ! i) then 1 else 0)"
    by simp
  with open_round_decreases [OF r]
  show "((pick, b', queue'), (pick, b, queue))
      \<in> measures [\<lambda>(pick, b, queue). count_cells (\<lambda>cell. \<not> is_opened cell) b,
                   \<lambda>(pick, b, queue). length (filter (stale b) queue)]"
    by auto
qed

text \<open>\<open>Board._open_cells\<close>.\<close>

definition open_cells :: "Board \<Rightarrow> Coord \<Rightarrow> error + Board" where
  "open_cells b coord = open_cells_loop b [coord]"

text \<open>\<open>Board.click_on\<close>.\<close>

definition click_on :: "Board \<Rightarrow> Coord \<Rightarrow> error + Board" where
  "click_on b coord =
     (case at b coord of
        Inl e \<Rightarrow> Inl e
      | Inr cell \<Rightarrow>
          if is_hole cell then Inr (b\<lparr>status := LOST\<rparr>)
          else open_cells b coord)"

text \<open>
  \<open>Board.__init__\<close>: \<open>Inl\<close> when the constructor raises, so that no board is produced,
  and otherwise the constructed board.
\<close>

definition Board_init ::
  "int \<Rightarrow> int \<Rightarrow> HolesGenerator \<Rightarrow> (nat \<Rightarrow> nat) \<Rightarrow> Coord \<Rightarrow> error + Board" where
  "Board_init sz holes_num holes_generator rnd first_coord =
     (if sz \<le> SMALLEST_BOARD_SIZE then Inl ValueError_size_too_small
      else if sz\<^sup>2 - SMALLEST_BOARD_SIZE\<^sup>2 \<le> holes_num then Inl ValueError_too_many_holes
      else
        let b = \<lparr>width = sz, height = sz, status = IN_GAME,
                 cells_to_open = sz * sz - holes_num,
                 board = map (\<lambda>_. map (\<lambda>_. Cell_init) (py_range sz)) (py_range sz)\<rparr>
        in case generate_board b holes_generator rnd first_coord of
             Inl e \<Rightarrow> Inl e
           | Inr b' \<Rightarrow> click_on b' first_coord)"

text \<open>A sequence of clicks, as the game loop of \<open>main\<close> makes them.\<close>

definition clicks :: "Coord list \<Rightarrow> Board \<Rightarrow> error + Board" where
  "clicks clicked b = for_each (\<lambda>coord b. click_on b coord) clicked b"

section \<open>Properties of the model\<close>

subsection \<open>Well-formed boards and in-bounds coordinates\<close>

text \<open>
  A coordinate is in bounds when it passes the check the interface makes before a click
  (\<open>0 \<le> x < width\<close>, \<open>0 \<le> y < height\<close>).  A board is well formed when its grid has
  \<open>height\<close> rows of \<open>width\<close> cells each, as the grid that \<open>Board.__init__\<close> builds.  On a
  well-formed board \<open>cell_of\<close> is the cell that \<open>at\<close> returns for an in-bounds coordinate,
  \<open>coords\<close> lists the in-bounds coordinates, \<open>adjacent\<close> holds of two different coordinates
  that differ by at most one in each direction, and \<open>same_shape\<close> relates a board to a
  well-formed board of the same width and height.
\<close>

definition in_bounds :: "Board \<Rightarrow> Coord \<Rightarrow> bool" where
  "in_bounds b c \<longleftrightarrow> 0 \<le> cx c \<and> cx c < width b \<and> 0 \<le> cy c \<and> cy c < height b"

definition well_formed :: "Board \<Rightarrow> bool" where
  "well_formed b \<longleftrightarrow>
     length (board b) = nat (height b) \<and> (\<forall>row \<in> set (board b). length row = nat (width b))"

definition cell_of :: "Board \<Rightarrow> Coord \<Rightarrow> Cell" where
  "cell_of b c = board b ! nat (cy c) ! nat (cx c)"

definition coords :: "Board \<Rightarrow> Coord list" where
  "coords b = [Coord x y. y \<leftarrow> py_range (height b), x \<leftarrow> py_range (width b)]"

definition adjacent :: "Coord \<Rightarrow> Coord \<Rightarrow> bool" where
  "adjacent c a \<longleftrightarrow> a \<noteq> c \<and> \<bar>cx a - cx c\<bar> \<le> 1 \<and> \<bar>cy a - cy c\<bar> \<le> 1"

definition same_shape :: "Board \<Rightarrow> Board \<Rightarrow> bool" where
  "same_shape b b' \<longleftrightarrow> well_formed b' \<and> width b' = width b \<and> height b' = height b"

lemma set_py_range: "set (py_range n) = {i. 0 \<le> i \<and> i < n}"
proof -
  have "i \<in> int ` {0..<nat n} \<longleftrightarrow> 0 \<le> i \<and> i < n" for i
  proof
    assume "i \<in> int ` {0..<nat n}"
    then show "0 \<le> i \<and> i < n" by auto
  next
    assume "0 \<le> i \<and> i < n"
    then have "nat i \<in> {0..<nat n}" "i = int (nat i)" by auto
    then show "i \<in> int ` {0..<nat n}" by blast
  qed
  then show ?thesis by (auto simp: py_range_def)
qed

lemma distinct_py_range: "distinct (py_range n)"
  by (simp add: py_range_def distinct_map)

lemma length_py_range: "length (py_range n) = nat n"
  by (simp add: py_range_def)

lemma set_coords: "set (coords b) = {c. in_bounds b c}"
proof -
  have "c \<in> set (coords b) \<longleftrightarrow> in_bounds b c" for c
    by (cases c) (auto simp: coords_def in_bounds_def set_py_range)
  then show ?thesis by blast
qed

lemma finite_in_bounds: "finite {c. in_bounds b c}"
  using set_coords [of b, symmetric] by simp

lemma py_pos_nat: "0 \<le> i \<Longrightarrow> i < int n \<Longrightarrow> py_pos n i = Some (nat i)"
  by (simp add: py_pos_def)

lemma well_formed_row:
  "well_formed b \<Longrightarrow> in_bounds b c \<Longrightarrow>
     nat (cy c) < length (board b) \<and> length (board b ! nat (cy c)) = nat (width b) \<and> nat (cx c) < nat (width b)"
  by (auto simp: well_formed_def in_bounds_def)

lemma at_well_formed: "well_formed b \<Longrightarrow> in_bounds b c \<Longrightarrow> at b c = Inr (cell_of b c)"
proof -
  assume wf: "well_formed b" and c: "in_bounds b c"
  from well_formed_row [OF wf c] c
  have "py_pos (length (board b)) (cy c) = Some (nat (cy c))"
    and "py_pos (length (board b ! nat (cy c))) (cx c) = Some (nat (cx c))"
    by (auto simp: in_bounds_def intro!: py_pos_nat)
  then show ?thesis by (simp add: at_Inr_iff cell_of_def)
qed

lemma modify_at_well_formed:
  assumes wf: "well_formed b" and c: "in_bounds b c"
  shows "\<exists>b'. modify_at b c f = Inr b' \<and> same_shape b b' \<and>
     status b' = status b \<and> cells_to_open b' = cells_to_open b \<and>
     (\<forall>d. in_bounds b d \<longrightarrow> cell_of b' d = (if d = c then f (cell_of b c) else cell_of b d))"
proof -
  let ?i = "nat (cy c)" and ?j = "nat (cx c)"
  let ?b' = "b\<lparr>board := (board b)[?i := (board b ! ?i)[?j := f (board b ! ?i ! ?j)]]\<rparr>"
  from well_formed_row [OF wf c] c
  have pi: "py_pos (length (board b)) (cy c) = Some ?i"
    and pj: "py_pos (length (board b ! ?i)) (cx c) = Some ?j"
    by (auto simp: in_bounds_def intro!: py_pos_nat)
  then have m: "modify_at b c f = Inr ?b'" by (simp add: modify_at_def)
  have shape: "same_shape b ?b'"
    using wf well_formed_row [OF wf c]
    by (auto simp: same_shape_def well_formed_def dest!: set_update_subset_insert [THEN subsetD])
  have cells: "cell_of ?b' d = (if d = c then f (cell_of b c) else cell_of b d)" if d: "in_bounds b d" for d
  proof (cases "d = c")
    case True
    with well_formed_row [OF wf c] show ?thesis by (simp add: cell_of_def)
  next
    case False
    with c d have "nat (cy d) \<noteq> ?i \<or> nat (cx d) \<noteq> ?j"
      by (cases c; cases d) (auto simp: in_bounds_def)
    with well_formed_row [OF wf c] well_formed_row [OF wf d] False show ?thesis
      by (auto simp: cell_of_def nth_list_update)
  qed
  from m shape cells show ?thesis by auto
qed

lemma same_shape_in_bounds: "same_shape b b' \<Longrightarrow> in_bounds b' = in_bounds b"
  by (auto simp: same_shape_def in_bounds_def fun_eq_iff)

lemma same_shape_refl: "well_formed b \<Longrightarrow> same_shape b b"
  by (simp add: same_shape_def)

lemma same_shape_trans: "same_shape b b1 \<Longrightarrow> same_shape b1 b2 \<Longrightarrow> same_shape b b2"
  by (simp add: same_shape_def)

lemma get_adjacent_coords_same_shape:
  "same_shape b b' \<Longrightarrow> get_adjacent_coords b' c = get_adjacent_coords b c"
  by (simp add: get_adjacent_coords_def same_shape_def)

subsection \<open>The adjacent coordinates\<close>

lemma neighbors_eq:
  "neighbors = [Coord (-1) (-1), Coord (-1) 0, Coord (-1) 1, Coord 0 (-1), Coord 0 1,
                Coord 1 (-1), Coord 1 0, Coord 1 1]"
  by (simp add: neighbors_def)

lemma abs_le_one_iff: "\<bar>d\<bar> \<le> 1 \<longleftrightarrow> d = -1 \<or> d = 0 \<or> d = 1" for d :: int
  by auto

lemma adjacent_shift:
  "adjacent (Coord x y) (Coord (dx + x) (dy + y)) \<longleftrightarrow> Coord dx dy \<in> set neighbors"
  unfolding neighbors_eq adjacent_def by (simp add: abs_le_one_iff) auto

lemma adjacent_iff_neighbors:
  "adjacent c a \<longleftrightarrow> (\<exists>n \<in> set neighbors. a = Coord (cx n + cx c) (cy n + cy c))"
proof -
  obtain x y where c: "c = Coord x y" by (cases c)
  obtain ax ay where a: "a = Coord ax ay" by (cases a)
  have a': "a = Coord ((ax - x) + x) ((ay - y) + y)" by (simp add: a)
  have "adjacent c a \<longleftrightarrow> Coord (ax - x) (ay - y) \<in> set neighbors"
    unfolding c by (subst a') (rule adjacent_shift)
  also have "\<dots> \<longleftrightarrow> (\<exists>n \<in> set neighbors. a = Coord (cx n + cx c) (cy n + cy c))"
  proof
    assume "Coord (ax - x) (ay - y) \<in> set neighbors"
    moreover have "a = Coord (cx (Coord (ax - x) (ay - y)) + cx c) (cy (Coord (ax - x) (ay - y)) + cy c)"
      by (simp add: a c)
    ultimately show "\<exists>n \<in> set neighbors. a = Coord (cx n + cx c) (cy n + cy c)" by blast
  next
    assume "\<exists>n \<in> set neighbors. a = Coord (cx n + cx c) (cy n + cy c)"
    then obtain n where n: "n \<in> set neighbors" and eq: "a = Coord (cx n + cx c) (cy n + cy c)" by blast
    have "Coord (ax - x) (ay - y) = n"
    proof (cases n)
      case (Coord nx ny)
      with eq show ?thesis by (simp add: a c)
    qed
    with n show "Coord (ax - x) (ay - y) \<in> set neighbors" by simp
  qed
  finally show ?thesis .
qed

lemma set_get_adjacent_coords:
  "set (get_adjacent_coords b c) = {a. in_bounds b a \<and> adjacent c a}"
proof -
  have "set (get_adjacent_coords b c) =
      {a. (\<exists>n \<in> set neighbors. a = Coord (cx n + cx c) (cy n + cy c)) \<and> in_bounds b a}"
    by (auto simp: get_adjacent_coords_def in_bounds_def)
  then show ?thesis by (auto simp: adjacent_iff_neighbors)
qed

lemma adjacent_comprehension:
  "[adjacent_coord.
      neighbor \<leftarrow> ns,
      adjacent_coord \<leftarrow> [Coord (cx neighbor + cx c) (cy neighbor + cy c)],
      \<not> (cx adjacent_coord < 0 \<or> cx adjacent_coord \<ge> width b
         \<or> cy adjacent_coord < 0 \<or> cy adjacent_coord \<ge> height b)] =
   filter (in_bounds b) (map (\<lambda>n. Coord (cx n + cx c) (cy n + cy c)) ns)"
  by (induction ns) (auto simp: in_bounds_def)

lemma distinct_get_adjacent_coords: "distinct (get_adjacent_coords b c)"
proof -
  have "distinct (map (\<lambda>n. Coord (cx n + cx c) (cy n + cy c)) neighbors)"
    by (simp add: neighbors_eq)
  then have "distinct (filter (in_bounds b) (map (\<lambda>n. Coord (cx n + cx c) (cy n + cy c)) neighbors))"
    by (rule distinct_filter)
  then show ?thesis
    unfolding get_adjacent_coords_def adjacent_comprehension .
qed

subsection \<open>One round of the reveal on a well-formed board\<close>

lemma cell_opened_id: "is_opened cell \<Longrightarrow> cell\<lparr>is_opened := True\<rparr> = cell"
  by (cases cell) simp

lemma open_cell_well_formed:
  assumes wf: "well_formed b" and c: "in_bounds b c"
  shows "\<exists>b'. open_cell b c = Inr b' \<and> same_shape b b' \<and>
     (\<forall>d. in_bounds b d \<longrightarrow>
        cell_of b' d = (if d = c then (cell_of b c)\<lparr>is_opened := True\<rparr> else cell_of b d)) \<and>
     cells_to_open b' = cells_to_open b - (if is_opened (cell_of b c) then 0 else 1) \<and>
     status b' = (if \<not> is_opened (cell_of b c) \<and> cells_to_open b = 1 then WIN else status b) \<and>
     (\<forall>P. count_cells P b' + (if P (cell_of b c) then 1 else 0) =
          count_cells P b + (if P ((cell_of b c)\<lparr>is_opened := True\<rparr>) then 1 else 0))"
proof (cases "is_opened (cell_of b c)")
  case True
  with at_well_formed [OF wf c] have "open_cell b c = Inr b" by (simp add: open_cell_def)
  with True wf show ?thesis by (simp add: same_shape_refl cell_opened_id)
next
  case False
  from modify_at_well_formed [OF wf c, of "\<lambda>cell. cell\<lparr>is_opened := True\<rparr>"]
  obtain b1 where m: "modify_at b c (\<lambda>cell. cell\<lparr>is_opened := True\<rparr>) = Inr b1"
    and shape: "same_shape b b1" and st: "status b1 = status b"
    and cnt: "cells_to_open b1 = cells_to_open b"
    and cells: "\<forall>d. in_bounds b d \<longrightarrow>
        cell_of b1 d = (if d = c then (cell_of b c)\<lparr>is_opened := True\<rparr> else cell_of b d)"
    by blast
  define b2 where "b2 = b1\<lparr>cells_to_open := cells_to_open b1 - 1\<rparr>"
  define b' where "b' = (if cells_to_open b2 = 0 then b2\<lparr>status := WIN\<rparr> else b2)"
  have board: "board b' = board b1" and dims: "width b' = width b1" "height b' = height b1"
    by (simp_all add: b'_def b2_def)
  from False m at_well_formed [OF wf c] have res: "open_cell b c = Inr b'"
    by (simp add: open_cell_def b'_def b2_def Let_def)
  from shape board dims have shape': "same_shape b b'"
    by (simp add: same_shape_def well_formed_def)
  from cells board have cells': "\<forall>d. in_bounds b d \<longrightarrow>
        cell_of b' d = (if d = c then (cell_of b c)\<lparr>is_opened := True\<rparr> else cell_of b d)"
    by (simp add: cell_of_def)
  from cnt False have cnt': "cells_to_open b' = cells_to_open b - (if is_opened (cell_of b c) then 0 else 1)"
    by (simp add: b'_def b2_def)
  from cnt st False
  have st': "status b' = (if \<not> is_opened (cell_of b c) \<and> cells_to_open b = 1 then WIN else status b)"
    by (simp add: b'_def b2_def)
  have count: "count_cells P b' + (if P (cell_of b c) then 1 else 0) =
      count_cells P b + (if P ((cell_of b c)\<lparr>is_opened := True\<rparr>) then 1 else 0)" for P
    using modify_at_count [OF m, of P] at_well_formed [OF wf c] board
    by (simp add: count_cells_def)
  from res shape' cells' cnt' st' count show ?thesis by blast
qed

lemma for_each_enqueue:
  assumes wf: "well_formed b" and "\<forall>a \<in> set as. in_bounds b a"
  shows "for_each
       (\<lambda>adjacent_coord queue.
          case at b adjacent_coord of
            Inl e \<Rightarrow> Inl e
          | Inr adjacent_cell \<Rightarrow>
              if is_hole adjacent_cell then Inr queue
              else if is_opened adjacent_cell then Inr queue
              else Inr (queue @ [adjacent_coord])) as queue =
     Inr (queue @ filter (\<lambda>a. \<not> is_hole (cell_of b a) \<and> \<not> is_opened (cell_of b a)) as)"
  using assms(2)
proof (induction as arbitrary: queue)
  case Nil
  then show ?case by simp
next
  case (Cons a as)
  then have "at b a = Inr (cell_of b a)" by (simp add: at_well_formed [OF wf])
  with Cons show ?case by simp
qed

lemma enqueue_adjacent_well_formed:
  assumes "well_formed b"
  shows "enqueue_adjacent b c queue =
     Inr (queue @ filter (\<lambda>a. \<not> is_hole (cell_of b a) \<and> \<not> is_opened (cell_of b a))
                    (get_adjacent_coords b c))"
  unfolding enqueue_adjacent_def
  by (rule for_each_enqueue [OF assms]) (simp add: set_get_adjacent_coords)

text \<open>
  The in-bounds coordinates whose cell is opened, and the relation between two boards
  whose cells agree on \<open>is_hole\<close> and \<open>holes_around\<close>.
\<close>

definition opened :: "Board \<Rightarrow> Coord set" where
  "opened b = {c. in_bounds b c \<and> is_opened (cell_of b c)}"

definition same_holes :: "Board \<Rightarrow> Board \<Rightarrow> bool" where
  "same_holes b b' \<longleftrightarrow>
     (\<forall>d. in_bounds b d \<longrightarrow> is_hole (cell_of b' d) = is_hole (cell_of b d) \<and>
        holes_around (cell_of b' d) = holes_around (cell_of b d))"

lemma open_round_well_formed:
  assumes wf: "well_formed b" and c: "in_bounds b c"
  shows "\<exists>b' ex. open_round b c rest = Inr (b', rest @ ex) \<and> same_shape b b' \<and> same_holes b b' \<and>
     opened b' = insert c (opened b) \<and>
     set ex = (if holes_around (cell_of b c) \<noteq> 0 then {}
               else {a. in_bounds b a \<and> adjacent c a \<and> \<not> is_hole (cell_of b a) \<and> a \<notin> opened b}) \<and>
     cells_to_open b' = cells_to_open b - (if c \<in> opened b then 0 else 1) \<and>
     status b' = (if c \<notin> opened b \<and> cells_to_open b = 1 then WIN else status b) \<and>
     (\<forall>P. count_cells P b' + (if P (cell_of b c) then 1 else 0) =
          count_cells P b + (if P ((cell_of b c)\<lparr>is_opened := True\<rparr>) then 1 else 0))"
proof -
  from open_cell_well_formed [OF wf c] obtain b' where
    oc: "open_cell b c = Inr b'" and shape: "same_shape b b'"
    and cells: "\<And>d. in_bounds b d \<Longrightarrow>
        cell_of b' d = (if d = c then (cell_of b c)\<lparr>is_opened := True\<rparr> else cell_of b d)"
    and cnt: "cells_to_open b' = cells_to_open b - (if is_opened (cell_of b c) then 0 else 1)"
    and st: "status b' = (if \<not> is_opened (cell_of b c) \<and> cells_to_open b = 1 then WIN else status b)"
    and count: "\<forall>P. count_cells P b' + (if P (cell_of b c) then 1 else 0) =
          count_cells P b + (if P ((cell_of b c)\<lparr>is_opened := True\<rparr>) then 1 else 0)"
    by blast
  from shape have wf': "well_formed b'" and ib: "in_bounds b' = in_bounds b"
    by (simp_all add: same_shape_def same_shape_in_bounds)
  from c ib have c': "in_bounds b' c" by simp
  define ex where "ex = (if holes_around (cell_of b c) \<noteq> 0 then []
     else filter (\<lambda>a. \<not> is_hole (cell_of b' a) \<and> \<not> is_opened (cell_of b' a)) (get_adjacent_coords b' c))"
  have hc: "holes_around (cell_of b' c) = holes_around (cell_of b c)"
    using cells [OF c] by simp
  have round: "open_round b c rest = Inr (b', rest @ ex)"
    using oc at_well_formed [OF wf' c'] enqueue_adjacent_well_formed [OF wf', of c rest] hc
    by (simp add: open_round_def ex_def)
  have holes: "same_holes b b'"
    using cells by (simp add: same_holes_def)
  have op: "opened b' = insert c (opened b)"
    using cells c ib by (auto simp: opened_def)
  have "set ex = (if holes_around (cell_of b c) \<noteq> 0 then {}
               else {a. in_bounds b a \<and> adjacent c a \<and> \<not> is_hole (cell_of b a) \<and> a \<notin> opened b})"
    using cells ib by (auto simp: ex_def set_get_adjacent_coords opened_def adjacent_def)
  moreover have "cells_to_open b' = cells_to_open b - (if c \<in> opened b then 0 else 1)"
    using cnt c by (simp add: opened_def)
  moreover have "status b' = (if c \<notin> opened b \<and> cells_to_open b = 1 then WIN else status b)"
    using st c by (simp add: opened_def)
  ultimately show ?thesis using round shape holes op count by blast
qed

subsection \<open>The result of the reveal\<close>

text \<open>
  The coordinates that a reveal from \<open>c0\<close> takes from its work-list on the board \<open>b\<close>:
  \<open>c0\<close>, and the unopened neighbours, not holes, of every such coordinate whose
  \<open>holes_around\<close> is \<open>0\<close>.  The invariant \<open>fill_inv\<close> of the loop relates the board and the
  work-list of a round to the board \<open>b0\<close> the reveal started from.
\<close>

inductive_set fill_region :: "Board \<Rightarrow> Coord \<Rightarrow> Coord set" for b :: Board and c0 :: Coord where
  start: "c0 \<in> fill_region b c0"
| expand: "d \<in> fill_region b c0 \<Longrightarrow> holes_around (cell_of b d) = 0 \<Longrightarrow>
     in_bounds b a \<Longrightarrow> adjacent d a \<Longrightarrow> \<not> is_hole (cell_of b a) \<Longrightarrow> \<not> is_opened (cell_of b a) \<Longrightarrow>
     a \<in> fill_region b c0"

definition fill_inv :: "Board \<Rightarrow> Coord \<Rightarrow> Board \<Rightarrow> Coord list \<Rightarrow> bool" where
  "fill_inv b0 c0 b queue \<longleftrightarrow>
     same_shape b0 b \<and> same_holes b0 b \<and>
     set queue \<subseteq> fill_region b0 c0 \<and>
     opened b0 \<subseteq> opened b \<and> opened b \<subseteq> opened b0 \<union> fill_region b0 c0 \<and>
     (c0 \<in> opened b \<or> c0 \<in> set queue) \<and>
     (\<forall>d \<in> fill_region b0 c0 \<inter> opened b. holes_around (cell_of b0 d) = 0 \<longrightarrow>
        d \<in> set queue \<or>
        (\<forall>a. in_bounds b0 a \<and> adjacent d a \<and> \<not> is_hole (cell_of b0 a) \<longrightarrow>
           a \<in> opened b \<or> a \<in> set queue)) \<and>
     cells_to_open b = cells_to_open b0 - int (card (opened b - opened b0)) \<and>
     status b = (if 0 < cells_to_open b0 \<and> cells_to_open b \<le> 0 then WIN else status b0)"

lemma open_cells_in_order_rule:
  assumes init: "I b queue"
    and ok: "\<And>b queue. I b queue \<Longrightarrow> well_formed b \<and> (\<forall>c \<in> set queue. in_bounds b c)"
    and step: "\<And>b queue i b' queue'. I b queue \<Longrightarrow> i < length queue \<Longrightarrow>
        open_round b (queue ! i) (take i queue @ drop (Suc i) queue) = Inr (b', queue') \<Longrightarrow> I b' queue'"
  shows "\<exists>b'. open_cells_in_order pick b queue = Inr b' \<and> I b' []"
  using init
proof (induction pick b queue rule: open_cells_in_order.induct)
  case (1 pick b queue)
  show ?case
  proof (cases "queue = []")
    case True
    with "1.prems" show ?thesis by (simp add: open_cells_in_order.simps [of pick b queue])
  next
    case False
    define i where "i = pick b queue mod length queue"
    from False have i: "i < length queue" by (simp add: i_def)
    from ok [OF "1.prems"] i have wf: "well_formed b" and c: "in_bounds b (queue ! i)" by auto
    from open_round_well_formed [OF wf c, of "take i queue @ drop (Suc i) queue"]
    obtain b' queue' where
      round: "open_round b (queue ! i) (take i queue @ drop (Suc i) queue) = Inr (b', queue')"
      by blast
    from step [OF "1.prems" i round] have "I b' queue'" .
    from "1.IH" [OF False i_def round refl this]
    obtain b'' where "open_cells_in_order pick b' queue' = Inr b''" "I b'' []" by blast
    with False round show ?thesis
      by (simp add: open_cells_in_order.simps [of pick b queue] i_def [symmetric])
  qed
qed

lemma fill_region_in_bounds:
  "in_bounds b c0 \<Longrightarrow> d \<in> fill_region b c0 \<Longrightarrow> in_bounds b d"
  by (erule fill_region.cases) auto

lemma opened_finite: "finite (opened b)"
  by (rule finite_subset [OF _ finite_in_bounds [of b]]) (auto simp: opened_def)

lemma set_take_drop:
  "i < length xs \<Longrightarrow> set xs = insert (xs ! i) (set (take i xs @ drop (Suc i) xs))"
proof -
  assume "i < length xs"
  then have "xs = take i xs @ xs ! i # drop (Suc i) xs" by (rule id_take_nth_drop)
  then have "set xs = set (take i xs @ xs ! i # drop (Suc i) xs)" by simp
  then show ?thesis by simp
qed

lemma fill_inv_step:
  assumes inv: "fill_inv b0 c0 b queue" and c0: "in_bounds b0 c0" and i: "i < length queue"
    and round: "open_round b (queue ! i) (take i queue @ drop (Suc i) queue) = Inr (b', queue')"
  shows "fill_inv b0 c0 b' queue'"
proof -
  let ?R = "fill_region b0 c0" and ?c = "queue ! i" and ?rest = "take i queue @ drop (Suc i) queue"
  from inv have shape: "same_shape b0 b" and holes: "same_holes b0 b"
    and q: "set queue \<subseteq> ?R" and mono: "opened b0 \<subseteq> opened b"
    and safe: "opened b \<subseteq> opened b0 \<union> ?R"
    and c0q: "c0 \<in> opened b \<or> c0 \<in> set queue"
    and closed: "\<And>d a. d \<in> ?R \<Longrightarrow> d \<in> opened b \<Longrightarrow> holes_around (cell_of b0 d) = 0 \<Longrightarrow>
        d \<notin> set queue \<Longrightarrow> in_bounds b0 a \<Longrightarrow> adjacent d a \<Longrightarrow> \<not> is_hole (cell_of b0 a) \<Longrightarrow>
        a \<in> opened b \<or> a \<in> set queue"
    and cnt: "cells_to_open b = cells_to_open b0 - int (card (opened b - opened b0))"
    and st: "status b = (if 0 < cells_to_open b0 \<and> cells_to_open b \<le> 0 then WIN else status b0)"
    unfolding fill_inv_def by blast+
  from shape have wf: "well_formed b" and ib: "in_bounds b = in_bounds b0"
    by (simp_all add: same_shape_def same_shape_in_bounds)
  from i q have cR: "?c \<in> ?R" by auto
  with c0 have cb0: "in_bounds b0 ?c" by (rule fill_region_in_bounds)
  with ib have cb: "in_bounds b ?c" by simp
  have setq: "set queue = insert ?c (set ?rest)" using i by (rule set_take_drop)
  from open_round_well_formed [OF wf cb, of ?rest] round obtain ex where
    q': "queue' = ?rest @ ex" and shape': "same_shape b b'" and holes': "same_holes b b'"
    and op: "opened b' = insert ?c (opened b)"
    and ex: "set ex = (if holes_around (cell_of b ?c) \<noteq> 0 then {}
               else {a. in_bounds b a \<and> adjacent ?c a \<and> \<not> is_hole (cell_of b a) \<and> a \<notin> opened b})"
    and cnt': "cells_to_open b' = cells_to_open b - (if ?c \<in> opened b then 0 else 1)"
    and st': "status b' = (if ?c \<notin> opened b \<and> cells_to_open b = 1 then WIN else status b)"
    by auto
  have hb: "is_hole (cell_of b d) = is_hole (cell_of b0 d)"
      "holes_around (cell_of b d) = holes_around (cell_of b0 d)" if "in_bounds b0 d" for d
    using holes that by (simp_all add: same_holes_def)
  have 1: "same_shape b0 b'" using shape shape' by (rule same_shape_trans)
  have 2: "same_holes b0 b'"
    using holes holes' ib by (simp add: same_holes_def)
  have exR: "set ex \<subseteq> ?R"
  proof
    fix a assume a: "a \<in> set ex"
    with ex have z: "holes_around (cell_of b ?c) = 0" and ab: "in_bounds b a" and adj: "adjacent ?c a"
      and nh: "\<not> is_hole (cell_of b a)" and no: "a \<notin> opened b"
      by (auto split: if_splits)
    from ab ib have ab0: "in_bounds b0 a" by simp
    from no mono ab0 have "\<not> is_opened (cell_of b0 a)" by (auto simp: opened_def)
    with cR z ab0 adj nh hb [OF cb0] hb [OF ab0] show "a \<in> ?R"
      by (auto intro: fill_region.expand)
  qed
  have 3: "set queue' \<subseteq> ?R" using q setq exR q' by auto
  have 4: "opened b0 \<subseteq> opened b'" using mono op by auto
  have 5: "opened b' \<subseteq> opened b0 \<union> ?R" using safe op cR by auto
  have 6: "c0 \<in> opened b' \<or> c0 \<in> set queue'" using c0q op setq q' by auto
  have 7: "d \<in> set queue' \<or> a \<in> opened b' \<or> a \<in> set queue'"
    if d: "d \<in> ?R" "d \<in> opened b'" "holes_around (cell_of b0 d) = 0"
      and a: "in_bounds b0 a" "adjacent d a" "\<not> is_hole (cell_of b0 a)" for d a
  proof (cases "d = ?c")
    case True
    with d hb [OF cb0] have z: "holes_around (cell_of b ?c) = 0" by simp
    show ?thesis
    proof (cases "a \<in> opened b")
      case True
      with op show ?thesis by simp
    next
      case False
      with a ib hb [OF a(1)] \<open>d = ?c\<close> z ex have "a \<in> set ex" by simp
      with q' show ?thesis by simp
    qed
  next
    case False
    with d op have dop: "d \<in> opened b" by simp
    show ?thesis
    proof (cases "d \<in> set queue")
      case True
      with False setq q' show ?thesis by auto
    next
      case False
      from closed [OF d(1) dop d(3) False a] have "a \<in> opened b \<or> a \<in> set queue" .
      with op setq q' show ?thesis by auto
    qed
  qed
  have fin: "finite (opened b - opened b0)" using opened_finite [of b] by simp
  have 8: "cells_to_open b' = cells_to_open b0 - int (card (opened b' - opened b0))"
  proof (cases "?c \<in> opened b")
    case True
    then have "opened b' = opened b" using op by auto
    with cnt cnt' True show ?thesis by simp
  next
    case False
    with mono have "?c \<notin> opened b0" by auto
    with op have "opened b' - opened b0 = insert ?c (opened b - opened b0)" by auto
    with False fin have "card (opened b' - opened b0) = Suc (card (opened b - opened b0))" by simp
    with cnt cnt' False show ?thesis by simp
  qed
  have 9: "status b' = (if 0 < cells_to_open b0 \<and> cells_to_open b' \<le> 0 then WIN else status b0)"
  proof (cases "?c \<in> opened b")
    case True
    with st st' cnt' show ?thesis by simp
  next
    case False
    with cnt cnt' st st' show ?thesis by auto
  qed
  from 1 2 3 4 5 6 7 8 9 show ?thesis unfolding fill_inv_def by blast
qed

lemma fill_region_not_opened:
  "d \<in> fill_region b c0 \<Longrightarrow> d = c0 \<or> d \<notin> opened b"
  by (erule fill_region.cases) (auto simp: opened_def)

lemma same_holes_refl: "same_holes b b"
  by (simp add: same_holes_def)

lemma fill_inv_init:
  assumes "well_formed b0"
  shows "fill_inv b0 c0 b0 [c0]"
  unfolding fill_inv_def
  using assms fill_region_not_opened [of _ b0 c0]
  by (auto simp: same_shape_refl same_holes_refl intro: fill_region.start)

lemma fill_inv_final:
  assumes inv: "fill_inv b0 c0 b' []"
  shows "opened b' = opened b0 \<union> fill_region b0 c0"
proof -
  from inv have mono: "opened b0 \<subseteq> opened b'"
    and safe: "opened b' \<subseteq> opened b0 \<union> fill_region b0 c0"
    and c0: "c0 \<in> opened b'"
    and closed: "\<And>d a. d \<in> fill_region b0 c0 \<Longrightarrow> d \<in> opened b' \<Longrightarrow>
        holes_around (cell_of b0 d) = 0 \<Longrightarrow> in_bounds b0 a \<Longrightarrow> adjacent d a \<Longrightarrow>
        \<not> is_hole (cell_of b0 a) \<Longrightarrow> a \<in> opened b'"
    unfolding fill_inv_def by auto
  have "d \<in> opened b'" if "d \<in> fill_region b0 c0" for d
    using that
  proof induction
    case start
    from c0 show ?case .
  next
    case (expand d a)
    from closed [OF expand(1) expand(7) expand(2) expand(3) expand(4) expand(5)] show ?case .
  qed
  with mono safe show ?thesis by auto
qed

lemma open_cells_in_order_result:
  assumes wf: "well_formed b0" and c0: "in_bounds b0 c0"
  shows "\<exists>b'. open_cells_in_order pick b0 [c0] = Inr b' \<and> same_shape b0 b' \<and> same_holes b0 b' \<and>
     opened b' = opened b0 \<union> fill_region b0 c0 \<and>
     cells_to_open b' = cells_to_open b0 - int (card (fill_region b0 c0 - opened b0)) \<and>
     status b' = (if 0 < cells_to_open b0 \<and> cells_to_open b' \<le> 0 then WIN else status b0)"
proof -
  have "\<exists>b'. open_cells_in_order pick b0 [c0] = Inr b' \<and> fill_inv b0 c0 b' []"
  proof (rule open_cells_in_order_rule [where I = "fill_inv b0 c0"])
    show "fill_inv b0 c0 b0 [c0]" using wf by (rule fill_inv_init)
  next
    fix b queue
    assume inv: "fill_inv b0 c0 b queue"
    then have "same_shape b0 b" and q: "set queue \<subseteq> fill_region b0 c0"
      unfolding fill_inv_def by auto
    then have "well_formed b" "in_bounds b = in_bounds b0"
      by (simp_all add: same_shape_def same_shape_in_bounds)
    with q fill_region_in_bounds [OF c0]
    show "well_formed b \<and> (\<forall>c \<in> set queue. in_bounds b c)" by auto
  next
    fix b queue i b' queue'
    assume inv: "fill_inv b0 c0 b queue" and i: "i < length queue"
      and round: "open_round b (queue ! i) (take i queue @ drop (Suc i) queue) = Inr (b', queue')"
    show "fill_inv b0 c0 b' queue'" by (rule fill_inv_step [OF inv c0 i round])
  qed
  then obtain b' where res: "open_cells_in_order pick b0 [c0] = Inr b'"
    and inv: "fill_inv b0 c0 b' []" by blast
  from fill_inv_final [OF inv] have op: "opened b' = opened b0 \<union> fill_region b0 c0" .
  then have "opened b' - opened b0 = fill_region b0 c0 - opened b0" by auto
  with inv res op show ?thesis unfolding fill_inv_def by auto
qed

lemma open_cells_loop_in_order:
  "open_cells_loop b queue = open_cells_in_order (\<lambda>b queue. 0) b queue"
proof (induction b queue rule: open_cells_loop.induct)
  case (1 b)
  show ?case by (simp add: open_cells_in_order.simps [of _ b "[]"])
next
  case (2 b coord queue)
  show ?case
  proof (cases "open_round b coord queue")
    case (Inl e)
    then show ?thesis by (simp add: open_cells_in_order.simps [of _ b "coord # queue"])
  next
    case (Inr r)
    obtain b' queue' where r: "r = (b', queue')" by (cases r)
    from "2.IH" [OF Inr r [symmetric]] Inr r show ?thesis
      by (simp add: open_cells_in_order.simps [of _ b "coord # queue"])
  qed
qed

subsection \<open>Counting cells by coordinates\<close>

lemma map_cell_of_coords:
  assumes "well_formed b"
  shows "map (cell_of b) (coords b) = concat (board b)"
proof -
  have row: "map (\<lambda>x. cell_of b (Coord x (int i))) (py_range (width b)) = board b ! i"
    if "i < length (board b)" for i
  proof -
    from that assms have len: "length (board b ! i) = nat (width b)"
      by (simp add: well_formed_def)
    have "map (\<lambda>x. cell_of b (Coord x (int i))) (py_range (width b)) =
        map (\<lambda>j. board b ! i ! j) [0..<nat (width b)]"
      by (simp add: py_range_def cell_of_def comp_def)
    also have "\<dots> = board b ! i" by (metis len map_nth)
    finally show ?thesis .
  qed
  have "map (cell_of b) (coords b) =
      concat (map (\<lambda>i. map (\<lambda>x. cell_of b (Coord x (int i))) (py_range (width b))) [0..<nat (height b)])"
    by (simp add: coords_def py_range_def map_concat comp_def)
  also have "\<dots> = concat (map (\<lambda>i. board b ! i) [0..<length (board b)])"
  proof -
    have len: "nat (height b) = length (board b)" using assms by (simp add: well_formed_def)
    have "map (\<lambda>i. map (\<lambda>x. cell_of b (Coord x (int i))) (py_range (width b))) [0..<length (board b)] =
        map (\<lambda>i. board b ! i) [0..<length (board b)]"
      by (rule map_cong [OF refl]) (simp add: row)
    then show ?thesis by (simp only: len)
  qed
  also have "\<dots> = concat (board b)" by (simp add: map_nth)
  finally show ?thesis .
qed

lemma distinct_coords: "distinct (coords b)"
proof -
  have "distinct (concat (map (\<lambda>y. map (\<lambda>x. Coord x y) xs) ys))"
    if "distinct xs" "distinct ys" for xs ys :: "int list"
    using that by (induction ys) (auto simp: distinct_map inj_on_def)
  from this [OF distinct_py_range distinct_py_range] show ?thesis
    by (simp add: coords_def)
qed

lemma count_cells_card:
  assumes "well_formed b"
  shows "count_cells P b = card {c. in_bounds b c \<and> P (cell_of b c)}"
proof -
  have "count_cells P b = length (filter P (map (cell_of b) (coords b)))"
    by (simp add: count_cells_def map_cell_of_coords [OF assms])
  also have "\<dots> = length (filter (\<lambda>c. P (cell_of b c)) (coords b))"
    by (simp add: filter_map comp_def)
  also have "\<dots> = card (set (filter (\<lambda>c. P (cell_of b c)) (coords b)))"
    by (rule distinct_card [symmetric]) (simp add: distinct_coords)
  also have "set (filter (\<lambda>c. P (cell_of b c)) (coords b)) = {c. in_bounds b c \<and> P (cell_of b c)}"
    by (auto simp: set_coords)
  finally show ?thesis .
qed

subsection \<open>Boards reached by play\<close>

definition safe_unopened :: "Cell \<Rightarrow> bool" where
  "safe_unopened cell \<longleftrightarrow> \<not> is_hole cell \<and> \<not> is_opened cell"

text \<open>The counter \<open>cells_to_open\<close> is the number of cells that are neither holes nor opened.\<close>

definition counter_ok :: "Board \<Rightarrow> bool" where
  "counter_ok b \<longleftrightarrow> cells_to_open b = int (count_cells safe_unopened b)"

text \<open>No hole is opened.\<close>

definition no_hole_opened :: "Board \<Rightarrow> bool" where
  "no_hole_opened b \<longleftrightarrow> (\<forall>c \<in> set (coords b). is_opened (cell_of b c) \<longrightarrow> \<not> is_hole (cell_of b c))"

text \<open>
  Every reveal so far has run to its end: around an opened cell with no hole around it,
  every cell that is not a hole is opened.
\<close>

definition fill_complete :: "Board \<Rightarrow> bool" where
  "fill_complete b \<longleftrightarrow>
     (\<forall>c \<in> set (coords b). is_opened (cell_of b c) \<and> holes_around (cell_of b c) = 0 \<longrightarrow>
        (\<forall>a \<in> set (get_adjacent_coords b c). \<not> is_hole (cell_of b a) \<longrightarrow> is_opened (cell_of b a)))"

text \<open>The in-bounds coordinates whose cell is not a hole.\<close>

definition safe :: "Board \<Rightarrow> Coord set" where
  "safe b = {c. in_bounds b c \<and> \<not> is_hole (cell_of b c)}"

lemma open_cells_result:
  assumes wf: "well_formed b" and c: "in_bounds b c"
  shows "\<exists>b'. open_cells b c = Inr b' \<and> same_shape b b' \<and> same_holes b b' \<and>
     opened b' = opened b \<union> fill_region b c \<and>
     cells_to_open b' = cells_to_open b - int (card (fill_region b c - opened b)) \<and>
     status b' = (if 0 < cells_to_open b \<and> cells_to_open b' \<le> 0 then WIN else status b)"
  unfolding open_cells_def open_cells_loop_in_order
  by (rule open_cells_in_order_result [OF wf c])

lemma click_on_hole:
  assumes "well_formed b" and "in_bounds b c" and "is_hole (cell_of b c)"
  shows "click_on b c = Inr (b\<lparr>status := LOST\<rparr>)"
  using assms by (simp add: click_on_def at_well_formed)

lemma click_on_safe:
  assumes "well_formed b" and "in_bounds b c" and "\<not> is_hole (cell_of b c)"
  shows "click_on b c = open_cells b c"
  using assms by (simp add: click_on_def at_well_formed)

lemma same_shape_status [simp]: "same_shape b (b'\<lparr>status := s\<rparr>) = same_shape b b'"
  by (simp add: same_shape_def well_formed_def)

lemma same_holes_status [simp]: "same_holes b (b'\<lparr>status := s\<rparr>) = same_holes b b'"
  by (simp add: same_holes_def cell_of_def)

lemma opened_status [simp]: "opened (b\<lparr>status := s\<rparr>) = opened b"
  by (simp add: opened_def cell_of_def in_bounds_def)

lemma count_cells_status [simp]: "count_cells P (b\<lparr>status := s\<rparr>) = count_cells P b"
  by (simp add: count_cells_def)

lemma safe_same:
  "same_shape b b' \<Longrightarrow> same_holes b b' \<Longrightarrow> safe b' = safe b"
  by (auto simp: safe_def same_holes_def same_shape_in_bounds)

lemma fill_region_safe:
  "c0 \<in> safe b \<Longrightarrow> d \<in> fill_region b c0 \<Longrightarrow> d \<in> safe b"
  by (erule fill_region.cases) (auto simp: safe_def)

lemma safe_finite: "finite (safe b)"
  by (rule finite_subset [OF _ finite_in_bounds [of b]]) (auto simp: safe_def)

lemma count_safe_unopened:
  "well_formed b \<Longrightarrow> count_cells safe_unopened b = card (safe b - opened b)"
proof -
  assume "well_formed b"
  then have "count_cells safe_unopened b = card {c. in_bounds b c \<and> safe_unopened (cell_of b c)}"
    by (rule count_cells_card)
  also have "{c. in_bounds b c \<and> safe_unopened (cell_of b c)} = safe b - opened b"
    by (auto simp: safe_def opened_def safe_unopened_def)
  finally show ?thesis .
qed

lemma count_opened: "well_formed b \<Longrightarrow> count_cells is_opened b = card (opened b)"
  by (simp add: count_cells_card opened_def)

lemma click_on_total:
  assumes wf: "well_formed b" and c: "in_bounds b c"
  shows "\<exists>b'. click_on b c = Inr b' \<and> same_shape b b' \<and> same_holes b b' \<and>
     opened b \<subseteq> opened b' \<and> opened b' \<subseteq> opened b \<union> safe b"
proof (cases "is_hole (cell_of b c)")
  case True
  from click_on_hole [OF wf c True] wf show ?thesis
    by (simp add: same_shape_refl same_holes_refl)
next
  case False
  with c have "c \<in> safe b" by (simp add: safe_def)
  then have "fill_region b c \<subseteq> safe b" by (auto dest: fill_region_safe)
  with open_cells_result [OF wf c] click_on_safe [OF wf c False] show ?thesis by auto
qed

lemma counter_ok_open_cells:
  assumes wf: "well_formed b" and c: "c \<in> safe b" and ok: "counter_ok b"
    and res: "open_cells b c = Inr b'"
  shows "counter_ok b'"
proof -
  from c have ib: "in_bounds b c" by (simp add: safe_def)
  from open_cells_result [OF wf ib] res have shape: "same_shape b b'" and holes: "same_holes b b'"
    and op: "opened b' = opened b \<union> fill_region b c"
    and cnt: "cells_to_open b' = cells_to_open b - int (card (fill_region b c - opened b))"
    by auto
  from shape have wf': "well_formed b'" by (simp add: same_shape_def)
  have R: "fill_region b c \<subseteq> safe b" using c by (auto dest: fill_region_safe)
  have "safe b' - opened b' = (safe b - opened b) - (fill_region b c - opened b)"
    using op safe_same [OF shape holes] by auto
  moreover have "fill_region b c - opened b \<subseteq> safe b - opened b" using R by auto
  moreover have "finite (safe b - opened b)" using safe_finite [of b] by simp
  ultimately have "card (safe b' - opened b') + card (fill_region b c - opened b) = card (safe b - opened b)"
    by (metis card_Diff_subset card_mono finite_subset le_add_diff_inverse2)
  with ok cnt show ?thesis
    by (simp add: counter_ok_def count_safe_unopened [OF wf] count_safe_unopened [OF wf'])
qed

lemma counter_ok_click_on:
  assumes wf: "well_formed b" and c: "in_bounds b c" and ok: "counter_ok b"
    and res: "click_on b c = Inr b'"
  shows "counter_ok b'"
proof (cases "is_hole (cell_of b c)")
  case True
  from click_on_hole [OF wf c True] res ok show ?thesis by (auto simp: counter_ok_def)
next
  case False
  with c have "c \<in> safe b" by (simp add: safe_def)
  moreover from click_on_safe [OF wf c False] res have "open_cells b c = Inr b'" by simp
  ultimately show ?thesis using wf ok by (metis counter_ok_open_cells)
qed

text \<open>
  The set the specification describes for a reveal from \<open>c0\<close>: the least set that contains
  \<open>c0\<close> and, with every member whose \<open>holes_around\<close> is \<open>0\<close>, all the in-bounds
  neighbours of that member that are not holes.
\<close>

inductive_set flood :: "Board \<Rightarrow> Coord \<Rightarrow> Coord set" for b :: Board and c0 :: Coord where
  clicked: "c0 \<in> flood b c0"
| neighbor: "d \<in> flood b c0 \<Longrightarrow> holes_around (cell_of b d) = 0 \<Longrightarrow>
     in_bounds b a \<Longrightarrow> adjacent d a \<Longrightarrow> \<not> is_hole (cell_of b a) \<Longrightarrow> a \<in> flood b c0"

definition flood_closed :: "Board \<Rightarrow> Coord set \<Rightarrow> bool" where
  "flood_closed b S \<longleftrightarrow>
     (\<forall>d \<in> S. holes_around (cell_of b d) = 0 \<longrightarrow>
        (\<forall>a. in_bounds b a \<and> adjacent d a \<and> \<not> is_hole (cell_of b a) \<longrightarrow> a \<in> S))"

lemma flood_least:
  assumes "c0 \<in> S" and "flood_closed b S"
  shows "flood b c0 \<subseteq> S"
proof
  fix d assume "d \<in> flood b c0"
  then show "d \<in> S"
    using assms by induction (auto simp: flood_closed_def)
qed

lemma flood_closed_flood: "flood_closed b (flood b c0)"
  unfolding flood_closed_def by (blast intro: flood.neighbor)

lemma flood_safe: "c0 \<in> safe b \<Longrightarrow> d \<in> flood b c0 \<Longrightarrow> d \<in> safe b"
  by (erule flood.cases) (auto simp: safe_def)

lemma fill_region_flood: "d \<in> fill_region b c0 \<Longrightarrow> d \<in> flood b c0"
  by (induction rule: fill_region.induct) (auto intro: flood.intros)

lemma fill_complete_iff:
  "fill_complete b \<longleftrightarrow>
     (\<forall>c a. c \<in> opened b \<and> holes_around (cell_of b c) = 0 \<and> in_bounds b a \<and> adjacent c a \<and>
        \<not> is_hole (cell_of b a) \<longrightarrow> a \<in> opened b)"
  unfolding fill_complete_def set_coords set_get_adjacent_coords opened_def by blast

lemma flood_fill_region:
  assumes fc: "fill_complete b" and d: "d \<in> flood b c0"
  shows "d \<in> opened b \<union> fill_region b c0"
  using d
proof induction
  case clicked
  show ?case by (simp add: fill_region.start)
next
  case (neighbor d a)
  show ?case
  proof (cases "a \<in> opened b")
    case True
    then show ?thesis by simp
  next
    case False
    with neighbor.hyps(3) have no: "\<not> is_opened (cell_of b a)" by (simp add: opened_def)
    have "d \<in> fill_region b c0"
    proof (rule ccontr)
      assume "d \<notin> fill_region b c0"
      with neighbor.IH have "d \<in> opened b" by simp
      with fc neighbor.hyps have "a \<in> opened b" unfolding fill_complete_iff by blast
      with False show False by simp
    qed
    with neighbor.hyps no show ?thesis by (auto intro: fill_region.expand)
  qed
qed

lemma opened_flood:
  "fill_complete b \<Longrightarrow> opened b \<union> fill_region b c0 = opened b \<union> flood b c0"
  using flood_fill_region [of b _ c0] fill_region_flood [of _ b c0] by blast

lemma fill_complete_open_cells:
  assumes wf: "well_formed b" and c: "in_bounds b c" and fc: "fill_complete b"
    and res: "open_cells b c = Inr b'"
  shows "fill_complete b'"
proof -
  from open_cells_result [OF wf c] res have shape: "same_shape b b'" and holes: "same_holes b b'"
    and op: "opened b' = opened b \<union> fill_region b c"
    by auto
  from shape have ib: "in_bounds b' = in_bounds b" by (rule same_shape_in_bounds)
  have "a \<in> opened b'"
    if d: "d \<in> opened b'" "holes_around (cell_of b' d) = 0"
      and a: "in_bounds b' a" "adjacent d a" "\<not> is_hole (cell_of b' a)" for d a
  proof -
    from d(1) have db: "in_bounds b d" using ib by (simp add: opened_def)
    from a(1) ib have ab: "in_bounds b a" by simp
    from holes db d(2) have z: "holes_around (cell_of b d) = 0" by (simp add: same_holes_def)
    from holes ab a(3) have nh: "\<not> is_hole (cell_of b a)" by (simp add: same_holes_def)
    show ?thesis
    proof (cases "d \<in> opened b")
      case True
      with fc z ab a(2) nh have "a \<in> opened b" unfolding fill_complete_iff by blast
      with op show ?thesis by simp
    next
      case False
      with d(1) op have dR: "d \<in> fill_region b c" by simp
      show ?thesis
      proof (cases "a \<in> opened b")
        case True
        with op show ?thesis by simp
      next
        case False
        with ab have "\<not> is_opened (cell_of b a)" by (simp add: opened_def)
        with dR z ab a(2) nh have "a \<in> fill_region b c" by (rule fill_region.expand)
        with op show ?thesis by simp
      qed
    qed
  qed
  then show ?thesis unfolding fill_complete_iff by blast
qed

lemma fill_complete_status [simp]: "fill_complete (b\<lparr>status := s\<rparr>) = fill_complete b"
  by (simp add: fill_complete_def coords_def cell_of_def get_adjacent_coords_def)

lemma no_hole_opened_status [simp]: "no_hole_opened (b\<lparr>status := s\<rparr>) = no_hole_opened b"
  by (simp add: no_hole_opened_def coords_def cell_of_def)

lemma fill_complete_click_on:
  assumes wf: "well_formed b" and c: "in_bounds b c" and fc: "fill_complete b"
    and res: "click_on b c = Inr b'"
  shows "fill_complete b'"
proof (cases "is_hole (cell_of b c)")
  case True
  from click_on_hole [OF wf c True] res fc show ?thesis by auto
next
  case False
  from click_on_safe [OF wf c False] res have "open_cells b c = Inr b'" by simp
  with wf c fc show ?thesis by (rule fill_complete_open_cells)
qed

lemma no_hole_opened_iff: "no_hole_opened b \<longleftrightarrow> opened b \<subseteq> safe b"
  unfolding no_hole_opened_def set_coords opened_def safe_def by blast

lemma no_hole_opened_click_on:
  assumes wf: "well_formed b" and c: "in_bounds b c" and nh: "no_hole_opened b"
    and res: "click_on b c = Inr b'"
  shows "no_hole_opened b'"
proof -
  from click_on_total [OF wf c] res have shape: "same_shape b b'" and holes: "same_holes b b'"
    and "opened b' \<subseteq> opened b \<union> safe b" by auto
  with nh safe_same [OF shape holes] show ?thesis by (auto simp: no_hole_opened_iff)
qed

subsection \<open>Boards that agree cell by cell\<close>

lemma board_eqI:
  assumes wf: "well_formed b" and shape: "same_shape b b'" and holes: "same_holes b b'"
    and op: "opened b' = opened b"
    and st: "status b' = status b" and cnt: "cells_to_open b' = cells_to_open b"
  shows "b' = b"
proof -
  from shape have wf': "well_formed b'" and w: "width b' = width b" and h: "height b' = height b"
    by (simp_all add: same_shape_def)
  have cell: "board b' ! i ! j = board b ! i ! j" if i: "i < nat (height b)" and j: "j < nat (width b)" for i j
  proof -
    let ?d = "Coord (int j) (int i)"
    from i j have d: "in_bounds b ?d" by (auto simp: in_bounds_def)
    then have d': "in_bounds b' ?d" using w h by (simp add: in_bounds_def)
    from op d d' have "is_opened (cell_of b' ?d) = is_opened (cell_of b ?d)"
      by (auto simp: opened_def)
    moreover from holes d have "is_hole (cell_of b' ?d) = is_hole (cell_of b ?d)"
      "holes_around (cell_of b' ?d) = holes_around (cell_of b ?d)"
      by (simp_all add: same_holes_def)
    ultimately have "cell_of b' ?d = cell_of b ?d" by (intro Cell.equality) simp_all
    then show ?thesis by (simp add: cell_of_def)
  qed
  have "board b' = board b"
  proof (rule nth_equalityI)
    show "length (board b') = length (board b)" using wf wf' h by (simp add: well_formed_def)
  next
    fix i assume "i < length (board b')"
    with wf' h have i: "i < nat (height b)" by (simp add: well_formed_def)
    with wf wf' h have len: "length (board b' ! i) = nat (width b')" "length (board b ! i) = nat (width b)"
      by (simp_all add: well_formed_def)
    show "board b' ! i = board b ! i"
    proof (rule nth_equalityI)
      show "length (board b' ! i) = length (board b ! i)" using len w by simp
    next
      fix j assume "j < length (board b' ! i)"
      with len w have "j < nat (width b)" by simp
      with i show "board b' ! i ! j = board b ! i ! j" by (rule cell)
    qed
  qed
  with w h st cnt show ?thesis by (intro Board.equality) simp_all
qed

lemma open_cells_unique:
  assumes wf: "well_formed b" and c: "in_bounds b c"
  shows "\<exists>b'. open_cells b c = Inr b' \<and> open_cells_in_order pick b [c] = Inr b'"
proof -
  from open_cells_result [OF wf c] obtain b1 where r1: "open_cells b c = Inr b1"
    and 1: "same_shape b b1" "same_holes b b1" "opened b1 = opened b \<union> fill_region b c"
      "cells_to_open b1 = cells_to_open b - int (card (fill_region b c - opened b))"
      "status b1 = (if 0 < cells_to_open b \<and> cells_to_open b1 \<le> 0 then WIN else status b)"
    by blast
  from open_cells_in_order_result [OF wf c, of pick] obtain b2 where
    r2: "open_cells_in_order pick b [c] = Inr b2"
    and 2: "same_shape b b2" "same_holes b b2" "opened b2 = opened b \<union> fill_region b c"
      "cells_to_open b2 = cells_to_open b - int (card (fill_region b c - opened b))"
      "status b2 = (if 0 < cells_to_open b \<and> cells_to_open b2 \<le> 0 then WIN else status b)"
    by blast
  from 1(1) have wf1: "well_formed b1" by (simp add: same_shape_def)
  have "same_shape b1 b2" using 1(1) 2(1) by (simp add: same_shape_def)
  moreover have "same_holes b1 b2"
    using 1(2) 2(2) same_shape_in_bounds [OF 1(1)] by (simp add: same_holes_def)
  moreover have "opened b2 = opened b1" using 1(3) 2(3) by simp
  moreover have "cells_to_open b2 = cells_to_open b1" using 1(4) 2(4) by simp
  moreover from this have "status b2 = status b1" using 1(5) 2(5) by simp
  ultimately have "b2 = b1" using wf1 by (intro board_eqI) simp_all
  with r1 r2 show ?thesis by simp
qed

lemma open_cells_nothing_left:
  assumes wf: "well_formed b" and c: "c \<in> safe b" and all: "count_cells safe_unopened b = 0"
  shows "open_cells b c = Inr b"
proof -
  from c have ib: "in_bounds b c" by (simp add: safe_def)
  from all have "card (safe b - opened b) = 0" by (simp add: count_safe_unopened [OF wf])
  then have sub: "safe b \<subseteq> opened b" using safe_finite [of b] by simp
  have "fill_region b c \<subseteq> safe b" using c by (auto dest: fill_region_safe)
  with sub have R: "fill_region b c \<subseteq> opened b" by simp
  then have R': "fill_region b c - opened b = {}" by simp
  from open_cells_result [OF wf ib] obtain b' where res: "open_cells b c = Inr b'"
    and 1: "same_shape b b'" "same_holes b b'" "opened b' = opened b \<union> fill_region b c"
      "cells_to_open b' = cells_to_open b - int (card (fill_region b c - opened b))"
      "status b' = (if 0 < cells_to_open b \<and> cells_to_open b' \<le> 0 then WIN else status b)"
    by blast
  from 1(4) R' have cnt: "cells_to_open b' = cells_to_open b" by simp
  with 1(5) have st: "status b' = status b" by auto
  from 1(3) R have "opened b' = opened b" by auto
  with wf 1(1) 1(2) st cnt have "b' = b" by (intro board_eqI)
  with res show ?thesis by simp
qed

subsection \<open>The sample of the holes\<close>

lemma pool_vacancy:
  assumes d: "distinct pool" and j: "j < length pool"
  shows "distinct (butlast (pool[j := last pool])) \<and>
         set (butlast (pool[j := last pool])) = set pool - {pool ! j} \<and>
         length (butlast (pool[j := last pool])) = length pool - 1"
proof -
  from j have "pool \<noteq> []" by auto
  then obtain ys l where pool: "pool = ys @ [l]" by (metis append_butlast_last_id)
  with d have dy: "distinct ys" and l: "l \<notin> set ys" by auto
  show ?thesis
  proof (cases "j < length ys")
    case True
    then have upd: "butlast (pool[j := last pool]) = ys[j := l]"
      by (simp add: pool list_update_append)
    from True have nth: "pool ! j = ys ! j" by (simp add: pool nth_append)
    from dy l have "distinct (ys[j := l])" by (simp add: distinct_list_update)
    moreover from dy True have "set (ys[j := l]) = insert l (set ys - {ys ! j})"
      by (rule set_update_distinct)
    moreover from True l have "ys ! j \<noteq> l" by (metis nth_mem)
    ultimately show ?thesis using upd nth l by (auto simp: pool)
  next
    case False
    with j have jl: "j = length ys" by (simp add: pool)
    then have "pool[j := last pool] = pool" by (simp add: pool)
    then have "butlast (pool[j := last pool]) = ys" by (simp add: pool)
    moreover from jl have "pool ! j = l" by (simp add: pool)
    ultimately show ?thesis using dy l by (auto simp: pool)
  qed
qed

lemma sample_pool_sample:
  "k \<le> length pool \<Longrightarrow> distinct pool \<Longrightarrow>
   length (sample_pool rnd i pool k) = k \<and> distinct (sample_pool rnd i pool k) \<and>
   set (sample_pool rnd i pool k) \<subseteq> set pool"
proof (induction k arbitrary: i pool)
  case 0
  then show ?case by simp
next
  case (Suc k)
  define j where "j = rnd i mod length pool"
  define pool' where "pool' = butlast (pool[j := last pool])"
  from Suc.prems have "0 < length pool" by auto
  then have j: "j < length pool" unfolding j_def by (rule mod_less_divisor)
  from pool_vacancy [OF Suc.prems(2) j]
  have d': "distinct pool'" and s': "set pool' = set pool - {pool ! j}"
    and l': "length pool' = length pool - 1"
    by (simp_all add: pool'_def)
  from Suc.prems l' have "k \<le> length pool'" by simp
  from Suc.IH [OF this d', of "Suc i"]
  have "length (sample_pool rnd (Suc i) pool' k) = k" "distinct (sample_pool rnd (Suc i) pool' k)"
    "set (sample_pool rnd (Suc i) pool' k) \<subseteq> set pool'"
    by simp_all
  with s' j show ?case
    by (auto simp: Let_def j_def [symmetric] pool'_def [symmetric])
qed

lemma places_comprehension:
  "[Coord x y. x \<leftarrow> xs, y \<leftarrow> ys, Coord x y \<noteq> skip_cell] =
   filter (\<lambda>c. c \<noteq> skip_cell) (concat (map (\<lambda>x. map (\<lambda>y. Coord x y) ys) xs))"
proof -
  have "concat (map (\<lambda>y. if Coord x y \<noteq> skip_cell then [Coord x y] else []) ys) =
      filter (\<lambda>c. c \<noteq> skip_cell) (map (\<lambda>y. Coord x y) ys)" for x
    by (induction ys) auto
  then show ?thesis by (induction xs) auto
qed

lemma distinct_columns:
  "distinct xs \<Longrightarrow> distinct ys \<Longrightarrow> distinct (concat (map (\<lambda>x. map (\<lambda>y. Coord x y) ys) xs))"
  by (induction xs) (auto simp: distinct_map inj_on_def)

lemma length_columns:
  "length (concat (map (\<lambda>x. map (\<lambda>y. Coord x y) ys) xs)) = length xs * length ys"
  by (induction xs) auto

lemma set_columns:
  "set (concat (map (\<lambda>x. map (\<lambda>y. Coord x y) ys) xs)) = {c. cx c \<in> set xs \<and> cy c \<in> set ys}"
proof -
  have "c \<in> set (concat (map (\<lambda>x. map (\<lambda>y. Coord x y) ys) xs)) \<longleftrightarrow> cx c \<in> set xs \<and> cy c \<in> set ys" for c
    by (cases c) auto
  then show ?thesis by blast
qed

lemma length_filter_neq:
  assumes "distinct xs" and "a \<in> set xs"
  shows "length (filter (\<lambda>c. c \<noteq> a) xs) = length xs - 1"
proof -
  have "length (filter (\<lambda>c. c \<noteq> a) xs) = card (set (filter (\<lambda>c. c \<noteq> a) xs))"
    by (rule distinct_card [symmetric]) (simp add: assms)
  also have "set (filter (\<lambda>c. c \<noteq> a) xs) = set xs - {a}" by auto
  also have "card (set xs - {a}) = card (set xs) - 1" using assms by simp
  also have "card (set xs) = length xs" using assms by (simp add: distinct_card)
  finally show ?thesis .
qed

lemma available_places_props:
  "distinct (available_places g skip_cell)"
  "set (available_places g skip_cell) =
     {c. 0 \<le> cx c \<and> cx c < gen_width g \<and> 0 \<le> cy c \<and> cy c < gen_height g \<and> c \<noteq> skip_cell}"
proof -
  show "distinct (available_places g skip_cell)"
    unfolding available_places_def places_comprehension
    by (intro distinct_filter distinct_columns distinct_py_range)
  have "set (available_places g skip_cell) =
      {c \<in> {c. cx c \<in> set (py_range (gen_width g)) \<and> cy c \<in> set (py_range (gen_height g))}.
         c \<noteq> skip_cell}"
    unfolding available_places_def places_comprehension set_filter set_columns ..
  then show "set (available_places g skip_cell) =
     {c. 0 \<le> cx c \<and> cx c < gen_width g \<and> 0 \<le> cy c \<and> cy c < gen_height g \<and> c \<noteq> skip_cell}"
    by (auto simp: set_py_range)
qed

lemma length_available_places:
  assumes "0 \<le> cx skip_cell" "cx skip_cell < gen_width g" "0 \<le> cy skip_cell" "cy skip_cell < gen_height g"
  shows "length (available_places g skip_cell) = nat (gen_width g) * nat (gen_height g) - 1"
proof -
  let ?all = "concat (map (\<lambda>x. map (\<lambda>y. Coord x y) (py_range (gen_height g))) (py_range (gen_width g)))"
  have "distinct ?all" by (simp add: distinct_columns distinct_py_range)
  moreover have "skip_cell \<in> set ?all"
    unfolding set_columns using assms by (simp add: set_py_range)
  ultimately have "length (filter (\<lambda>c. c \<noteq> skip_cell) ?all) = length ?all - 1"
    by (rule length_filter_neq)
  then show ?thesis
    by (simp add: available_places_def places_comprehension length_columns length_py_range)
qed

lemma generate_holes_result:
  assumes "0 \<le> cx skip_cell" "cx skip_cell < gen_width g" "0 \<le> cy skip_cell" "cy skip_cell < gen_height g"
    and "0 \<le> gen_holes_num g" and "gen_holes_num g < gen_width g * gen_height g"
  shows "\<exists>holes. generate_holes g rnd skip_cell = Inr holes \<and>
     length holes = nat (gen_holes_num g) \<and> distinct holes \<and>
     (\<forall>c \<in> set holes. 0 \<le> cx c \<and> cx c < gen_width g \<and> 0 \<le> cy c \<and> cy c < gen_height g) \<and>
     skip_cell \<notin> set holes"
proof -
  let ?pool = "available_places g skip_cell"
  from assms(1-4) have w: "0 < gen_width g" and h: "0 < gen_height g" by auto
  have len: "length ?pool = nat (gen_width g) * nat (gen_height g) - 1"
    using assms(1-4) by (rule length_available_places)
  have "int (nat (gen_width g) * nat (gen_height g)) = gen_width g * gen_height g"
    using w h by simp
  with assms(6) have "nat (gen_holes_num g) < nat (gen_width g) * nat (gen_height g)"
    using assms(5) by linarith
  with len have k: "nat (gen_holes_num g) \<le> length ?pool" by linarith
  with assms(5) have "gen_holes_num g \<le> int (length ?pool)" by linarith
  with assms(5) have res: "generate_holes g rnd skip_cell =
      Inr (sample_pool rnd 0 ?pool (nat (gen_holes_num g)))"
    by (simp add: generate_holes_def random_sample_def)
  from sample_pool_sample [OF k available_places_props(1), of rnd 0]
  have "length (sample_pool rnd 0 ?pool (nat (gen_holes_num g))) = nat (gen_holes_num g)"
    "distinct (sample_pool rnd 0 ?pool (nat (gen_holes_num g)))"
    "set (sample_pool rnd 0 ?pool (nat (gen_holes_num g))) \<subseteq> set ?pool"
    by simp_all
  with res show ?thesis by (auto simp: available_places_props(2))
qed

subsection \<open>The board after its generation\<close>

text \<open>The number of holes among the in-bounds neighbours of a coordinate.\<close>

definition holes_next_to :: "Board \<Rightarrow> Coord \<Rightarrow> nat" where
  "holes_next_to b c = card {a. in_bounds b a \<and> adjacent c a \<and> is_hole (cell_of b a)}"

lemma for_each_rule:
  assumes "J S s"
    and "\<And>a S s. a \<in> set as \<Longrightarrow> J S s \<Longrightarrow> \<exists>s'. body a s = Inr s' \<and> J (S \<union> G a) s'"
  shows "\<exists>s'. for_each body as s = Inr s' \<and> J (S \<union> (\<Union>a \<in> set as. G a)) s'"
  using assms
proof (induction as arbitrary: S s)
  case Nil
  then show ?case by simp
next
  case (Cons a as)
  from Cons.prems(2) [OF _ Cons.prems(1), of a] obtain s1 where
    s1: "body a s = Inr s1" and J1: "J (S \<union> G a) s1" by auto
  from Cons.IH [OF J1] Cons.prems(2) obtain s' where
    "for_each body as s1 = Inr s'" "J (S \<union> G a \<union> (\<Union>a \<in> set as. G a)) s'"
    by (metis list.set_intros(2))
  moreover have "S \<union> G a \<union> (\<Union>a \<in> set as. G a) = S \<union> (\<Union>a \<in> set (a # as). G a)" by auto
  ultimately show ?case using s1 by simp
qed

lemma modify_at_result:
  assumes wf: "well_formed b" and c: "in_bounds b c"
  obtains b' where "modify_at b c f = Inr b'" and "same_shape b b'"
    and "status b' = status b" and "cells_to_open b' = cells_to_open b"
    and "\<And>d. in_bounds b d \<Longrightarrow> cell_of b' d = (if d = c then f (cell_of b c) else cell_of b d)"
  using modify_at_well_formed [OF wf c, of f] by blast

text \<open>What a loop over coordinates has made of the board \<open>b\<close> when it has changed the cells of \<open>S\<close>.\<close>

definition changed_on ::
  "Board \<Rightarrow> (Coord \<Rightarrow> Cell \<Rightarrow> Cell) \<Rightarrow> Coord set \<Rightarrow> Board \<Rightarrow> bool" where
  "changed_on b f S b' \<longleftrightarrow>
     same_shape b b' \<and> status b' = status b \<and> cells_to_open b' = cells_to_open b \<and>
     (\<forall>d. in_bounds b d \<longrightarrow> cell_of b' d = (if d \<in> S then f d (cell_of b d) else cell_of b d))"

lemma changed_on_start: "well_formed b \<Longrightarrow> changed_on b f {} b"
  by (simp add: changed_on_def same_shape_refl)

lemma mark_holes_result:
  assumes wf: "well_formed b" and holes: "\<forall>c \<in> set holes. in_bounds b c"
  shows "\<exists>b'. mark_holes holes b = Inr b' \<and>
     changed_on b (\<lambda>d cell. cell\<lparr>is_hole := True\<rparr>) (set holes) b'"
proof -
  let ?f = "\<lambda>(d::Coord) cell. cell\<lparr>is_hole := True\<rparr>"
  have "\<exists>b'. for_each (\<lambda>hole_coord b. modify_at b hole_coord (\<lambda>hole_cell. hole_cell\<lparr>is_hole := True\<rparr>)) holes b = Inr b' \<and>
      changed_on b ?f ({} \<union> (\<Union>a \<in> set holes. {a})) b'"
  proof (rule for_each_rule [where J = "changed_on b ?f"])
    show "changed_on b ?f {} b" using wf by (rule changed_on_start)
  next
    fix a S s
    assume a: "a \<in> set holes" and J: "changed_on b ?f S s"
    from J have shape: "same_shape b s" and st: "status s = status b"
      and cnt: "cells_to_open s = cells_to_open b"
      and cells: "\<And>d. in_bounds b d \<Longrightarrow> cell_of s d = (if d \<in> S then ?f d (cell_of b d) else cell_of b d)"
      by (simp_all add: changed_on_def)
    from shape have wfs: "well_formed s" and ib: "in_bounds s = in_bounds b"
      by (simp_all add: same_shape_def same_shape_in_bounds)
    from a holes ib have as: "in_bounds s a" by simp
    from modify_at_result [OF wfs as, of "\<lambda>hole_cell. hole_cell\<lparr>is_hole := True\<rparr>"]
    obtain s' where m: "modify_at s a (\<lambda>hole_cell. hole_cell\<lparr>is_hole := True\<rparr>) = Inr s'"
      and shape': "same_shape s s'" and st': "status s' = status s"
      and cnt': "cells_to_open s' = cells_to_open s"
      and cells': "\<And>d. in_bounds s d \<Longrightarrow>
          cell_of s' d = (if d = a then (cell_of s a)\<lparr>is_hole := True\<rparr> else cell_of s d)"
      by blast
    have "changed_on b ?f (S \<union> {a}) s'"
      unfolding changed_on_def
      using same_shape_trans [OF shape shape'] st st' cnt cnt' cells cells' ib as
      by auto
    with m show "\<exists>s'. modify_at s a (\<lambda>hole_cell. hole_cell\<lparr>is_hole := True\<rparr>) = Inr s' \<and>
        changed_on b ?f (S \<union> {a}) s'" by blast
  qed
  then show ?thesis by (simp add: mark_holes_def)
qed

lemma cells_at_well_formed:
  assumes "well_formed b" and "\<forall>c \<in> set cs. in_bounds b c"
  shows "cells_at b cs = Inr (map (cell_of b) cs)"
  using assms(2) by (induction cs) (simp_all add: at_well_formed [OF assms(1)])

lemma sum_holes:
  "sum_list (map (\<lambda>adjacent_cell. if is_hole adjacent_cell then 1 else 0) (map (cell_of b) cs)) =
   int (length (filter (\<lambda>a. is_hole (cell_of b a)) cs))"
  by (induction cs) auto

lemma holes_next_to_adjacent:
  "int (length (filter (\<lambda>a. is_hole (cell_of b a)) (get_adjacent_coords b c))) = int (holes_next_to b c)"
proof -
  have "length (filter (\<lambda>a. is_hole (cell_of b a)) (get_adjacent_coords b c)) =
      card (set (filter (\<lambda>a. is_hole (cell_of b a)) (get_adjacent_coords b c)))"
    by (rule distinct_card [symmetric]) (simp add: distinct_get_adjacent_coords)
  also have "set (filter (\<lambda>a. is_hole (cell_of b a)) (get_adjacent_coords b c)) =
      {a. in_bounds b a \<and> adjacent c a \<and> is_hole (cell_of b a)}"
    by (auto simp: set_get_adjacent_coords)
  finally show ?thesis by (simp add: holes_next_to_def)
qed

lemma count_holes_around_result:
  assumes wf: "well_formed b" and c: "in_bounds b c"
  shows "\<exists>b'. count_holes_around c b = Inr b' \<and> same_shape b b' \<and>
     status b' = status b \<and> cells_to_open b' = cells_to_open b \<and>
     (\<forall>d. in_bounds b d \<longrightarrow>
        cell_of b' d = (if d = c \<and> \<not> is_hole (cell_of b c)
                        then (cell_of b c)\<lparr>holes_around := int (holes_next_to b c)\<rparr>
                        else cell_of b d))"
proof (cases "is_hole (cell_of b c)")
  case True
  with at_well_formed [OF wf c] wf show ?thesis
    by (simp add: count_holes_around_def same_shape_refl)
next
  case False
  have cells: "get_adjacent_cells b c = Inr (map (cell_of b) (get_adjacent_coords b c))"
    unfolding get_adjacent_cells_def
    by (rule cells_at_well_formed [OF wf]) (simp add: set_get_adjacent_coords)
  let ?n = "sum_list (map (\<lambda>adjacent_cell. if is_hole adjacent_cell then 1 else 0)
      (map (cell_of b) (get_adjacent_coords b c)))"
  have n: "?n = int (holes_next_to b c)"
    by (simp only: sum_holes holes_next_to_adjacent)
  from modify_at_result [OF wf c, of "\<lambda>cell. cell\<lparr>holes_around := ?n\<rparr>"]
  obtain b' where m: "modify_at b c (\<lambda>cell. cell\<lparr>holes_around := ?n\<rparr>) = Inr b'"
    and shape: "same_shape b b'" and st: "status b' = status b"
    and cnt: "cells_to_open b' = cells_to_open b"
    and cs: "\<And>d. in_bounds b d \<Longrightarrow>
        cell_of b' d = (if d = c then (cell_of b c)\<lparr>holes_around := ?n\<rparr> else cell_of b d)"
    by blast
  from False at_well_formed [OF wf c] cells m
  have "count_holes_around c b = Inr b'" by (simp add: count_holes_around_def)
  with shape st cnt cs False n show ?thesis by auto
qed

lemma holes_next_to_same:
  assumes "same_shape b b'" and "\<forall>d. in_bounds b d \<longrightarrow> is_hole (cell_of b' d) = is_hole (cell_of b d)"
  shows "holes_next_to b' c = holes_next_to b c"
proof -
  from assms(1) have "in_bounds b' = in_bounds b" by (rule same_shape_in_bounds)
  with assms(2) have "{a. in_bounds b' a \<and> adjacent c a \<and> is_hole (cell_of b' a)} =
      {a. in_bounds b a \<and> adjacent c a \<and> is_hole (cell_of b a)}" by auto
  then show ?thesis by (simp add: holes_next_to_def)
qed

text \<open>What \<open>_generate_holes_adjacent\<close> makes of the cell at \<open>d\<close>.\<close>

definition counted :: "Board \<Rightarrow> Coord \<Rightarrow> Cell \<Rightarrow> Cell" where
  "counted b d cell = (if is_hole cell then cell else cell\<lparr>holes_around := int (holes_next_to b d)\<rparr>)"

lemma count_holes_around_step:
  assumes J: "changed_on b (counted b) S s" and c: "in_bounds b c"
  shows "\<exists>s'. count_holes_around c s = Inr s' \<and> changed_on b (counted b) (S \<union> {c}) s'"
proof -
  from J have shape: "same_shape b s" and st: "status s = status b"
    and cnt: "cells_to_open s = cells_to_open b"
    and cells: "\<And>d. in_bounds b d \<Longrightarrow> cell_of s d = (if d \<in> S then counted b d (cell_of b d) else cell_of b d)"
    by (simp_all add: changed_on_def)
  from shape have wfs: "well_formed s" and ib: "in_bounds s = in_bounds b"
    by (simp_all add: same_shape_def same_shape_in_bounds)
  have holes: "\<forall>d. in_bounds b d \<longrightarrow> is_hole (cell_of s d) = is_hole (cell_of b d)"
    using cells by (simp add: counted_def)
  from c ib have cs: "in_bounds s c" by simp
  from count_holes_around_result [OF wfs cs] obtain s' where
    res: "count_holes_around c s = Inr s'" and shape': "same_shape s s'"
    and st': "status s' = status s" and cnt': "cells_to_open s' = cells_to_open s"
    and cells': "\<And>d. in_bounds s d \<Longrightarrow>
        cell_of s' d = (if d = c \<and> \<not> is_hole (cell_of s c)
                        then (cell_of s c)\<lparr>holes_around := int (holes_next_to s c)\<rparr>
                        else cell_of s d)"
    by blast
  have n: "holes_next_to s c = holes_next_to b c" using shape holes by (rule holes_next_to_same)
  have "cell_of s' d = (if d \<in> S \<union> {c} then counted b d (cell_of b d) else cell_of b d)"
    if d: "in_bounds b d" for d
    using cells' [of d] cells [OF d] cells [OF c] d ib n holes c
    by (auto simp: counted_def)
  with same_shape_trans [OF shape shape'] st st' cnt cnt' res show ?thesis
    by (auto simp: changed_on_def)
qed

lemma generate_holes_adjacent_result:
  assumes wf: "well_formed b"
  shows "\<exists>b'. generate_holes_adjacent b = Inr b' \<and> changed_on b (counted b) {c. in_bounds b c} b'"
proof -
  let ?J = "changed_on b (counted b)"
  let ?row = "\<lambda>y. \<Union>x \<in> set (py_range (width b)). {Coord x y}"
  have "\<exists>b'. for_each (\<lambda>y. for_each (\<lambda>x. count_holes_around (Coord x y)) (py_range (width b)))
        (py_range (height b)) b = Inr b' \<and> ?J ({} \<union> (\<Union>y \<in> set (py_range (height b)). ?row y)) b'"
  proof (rule for_each_rule [where J = ?J])
    show "?J {} b" using wf by (rule changed_on_start)
  next
    fix y S s
    assume y: "y \<in> set (py_range (height b))" and J: "?J S s"
    show "\<exists>s'. for_each (\<lambda>x. count_holes_around (Coord x y)) (py_range (width b)) s = Inr s' \<and>
        ?J (S \<union> ?row y) s'"
    proof (rule for_each_rule [where J = ?J, OF J])
      fix x S s
      assume x: "x \<in> set (py_range (width b))" and J: "?J S s"
      from x y have "in_bounds b (Coord x y)" by (simp add: in_bounds_def set_py_range)
      with J show "\<exists>s'. count_holes_around (Coord x y) s = Inr s' \<and> ?J (S \<union> {Coord x y}) s'"
        by (rule count_holes_around_step)
    qed
  qed
  moreover have "{} \<union> (\<Union>y \<in> set (py_range (height b)). ?row y) = {c. in_bounds b c}"
  proof -
    have "c \<in> (\<Union>y \<in> set (py_range (height b)). ?row y) \<longleftrightarrow> in_bounds b c" for c
      by (cases c) (auto simp: in_bounds_def set_py_range)
    then show ?thesis by blast
  qed
  ultimately show ?thesis by (simp add: generate_holes_adjacent_def)
qed

lemma length_coords: "length (coords b) = nat (height b) * nat (width b)"
proof -
  have "length (concat (map (\<lambda>y. map (\<lambda>x. Coord x y) xs) ys)) = length ys * length xs"
    for xs ys :: "int list"
    by (induction ys) auto
  then show ?thesis by (simp add: coords_def length_py_range)
qed

lemma card_in_bounds: "card {c. in_bounds b c} = nat (height b) * nat (width b)"
  using distinct_card [OF distinct_coords, of b] by (simp add: set_coords length_coords)

lemma generate_board_result:
  assumes wf: "well_formed b0"
    and fresh: "\<forall>d. in_bounds b0 d \<longrightarrow> cell_of b0 d = Cell_init"
    and gen: "generate_holes g rnd first_coord = Inr holes"
    and ib: "\<forall>c \<in> set holes. in_bounds b0 c"
  shows "\<exists>b2. generate_board b0 g rnd first_coord = Inr b2 \<and> same_shape b0 b2 \<and>
     status b2 = status b0 \<and> cells_to_open b2 = cells_to_open b0 \<and>
     (\<forall>d. in_bounds b0 d \<longrightarrow>
        cell_of b2 d = \<lparr>is_hole = d \<in> set holes,
                        holes_around = (if d \<in> set holes then 0 else int (holes_next_to b2 d)),
                        is_opened = False\<rparr>)"
proof -
  from mark_holes_result [OF wf ib] obtain b1 where
    m: "mark_holes holes b0 = Inr b1"
    and c1: "changed_on b0 (\<lambda>d cell. cell\<lparr>is_hole := True\<rparr>) (set holes) b1"
    by blast
  from c1 have shape1: "same_shape b0 b1" and st1: "status b1 = status b0"
    and cnt1: "cells_to_open b1 = cells_to_open b0"
    and cells1: "\<And>d. in_bounds b0 d \<Longrightarrow>
        cell_of b1 d = (if d \<in> set holes then (cell_of b0 d)\<lparr>is_hole := True\<rparr> else cell_of b0 d)"
    by (simp_all add: changed_on_def)
  from shape1 have wf1: "well_formed b1" and ib1: "in_bounds b1 = in_bounds b0"
    by (simp_all add: same_shape_def same_shape_in_bounds)
  from generate_holes_adjacent_result [OF wf1] obtain b2 where
    a: "generate_holes_adjacent b1 = Inr b2"
    and c2: "changed_on b1 (counted b1) {c. in_bounds b1 c} b2"
    by blast
  from c2 have shape2: "same_shape b1 b2" and st2: "status b2 = status b1"
    and cnt2: "cells_to_open b2 = cells_to_open b1"
    and cells2: "\<And>d. in_bounds b1 d \<Longrightarrow> cell_of b2 d = counted b1 d (cell_of b1 d)"
    by (simp_all add: changed_on_def)
  have holes2: "\<forall>d. in_bounds b1 d \<longrightarrow> is_hole (cell_of b2 d) = is_hole (cell_of b1 d)"
    using cells2 by (simp add: counted_def)
  have n: "holes_next_to b2 d = holes_next_to b1 d" for d
    using shape2 holes2 by (rule holes_next_to_same)
  have "cell_of b2 d = \<lparr>is_hole = d \<in> set holes,
                        holes_around = (if d \<in> set holes then 0 else int (holes_next_to b2 d)),
                        is_opened = False\<rparr>" if d: "in_bounds b0 d" for d
    using cells2 [of d] cells1 [OF d] fresh d ib1 n
    by (simp add: counted_def Cell_init_def)
  moreover have "generate_board b0 g rnd first_coord = Inr b2"
    using gen m a by (simp add: generate_board_def generate_holes_of_board_def)
  ultimately show ?thesis
    using same_shape_trans [OF shape1 shape2] st1 st2 cnt1 cnt2 by auto
qed

lemma Board_init_result:
  assumes sz: "3 < sz" and h0: "0 \<le> holes_num" and h1: "holes_num < sz\<^sup>2 - 9"
    and first: "0 \<le> cx first_coord" "cx first_coord < sz" "0 \<le> cy first_coord" "cy first_coord < sz"
  shows "\<exists>holes b.
     generate_holes (HolesGenerator_init sz holes_num) rnd first_coord = Inr holes \<and>
     length holes = nat holes_num \<and> distinct holes \<and> first_coord \<notin> set holes \<and>
     Board_init sz holes_num (HolesGenerator_init sz holes_num) rnd first_coord = Inr b \<and>
     well_formed b \<and> width b = sz \<and> height b = sz \<and> set holes \<subseteq> {c. in_bounds b c} \<and>
     (\<forall>d. in_bounds b d \<longrightarrow>
        is_hole (cell_of b d) = (d \<in> set holes) \<and>
        holes_around (cell_of b d) = (if d \<in> set holes then 0 else int (holes_next_to b d))) \<and>
     first_coord \<in> opened b \<and> (status b = IN_GAME \<or> status b = WIN) \<and>
     (status b = WIN \<longleftrightarrow> cells_to_open b = 0) \<and>
     counter_ok b \<and> fill_complete b \<and> no_hole_opened b"
proof -
  define g where "g = HolesGenerator_init sz holes_num"
  define b0 where "b0 = \<lparr>width = sz, height = sz, status = IN_GAME,
      cells_to_open = sz * sz - holes_num,
      board = map (\<lambda>_. map (\<lambda>_. Cell_init) (py_range sz)) (py_range sz)\<rparr>"
  have wf0: "well_formed b0" by (simp add: well_formed_def b0_def length_py_range)
  have dims0: "width b0 = sz" "height b0 = sz" by (simp_all add: b0_def)
  have fresh: "\<forall>d. in_bounds b0 d \<longrightarrow> cell_of b0 d = Cell_init"
    by (auto simp: in_bounds_def cell_of_def b0_def length_py_range)
  have sq: "sz\<^sup>2 = sz * sz" by (simp add: power2_eq_square)
  have g: "gen_width g = sz" "gen_height g = sz" "gen_holes_num g = holes_num"
    by (simp_all add: g_def HolesGenerator_init_def)
  from h1 sq have "gen_holes_num g < gen_width g * gen_height g" by (simp add: g)
  with generate_holes_result [of first_coord g rnd] first h0 g
  obtain holes where gen: "generate_holes g rnd first_coord = Inr holes"
    and len: "length holes = nat holes_num" and dist: "distinct holes"
    and hb: "\<forall>c \<in> set holes. 0 \<le> cx c \<and> cx c < sz \<and> 0 \<le> cy c \<and> cy c < sz"
    and nf: "first_coord \<notin> set holes"
    by auto
  from hb have hib: "\<forall>c \<in> set holes. in_bounds b0 c" by (simp add: in_bounds_def dims0)
  from generate_board_result [OF wf0 fresh gen hib] obtain b2 where
    gb: "generate_board b0 g rnd first_coord = Inr b2" and shape2: "same_shape b0 b2"
    and st2: "status b2 = status b0" and cnt2: "cells_to_open b2 = cells_to_open b0"
    and cells2: "\<And>d. in_bounds b0 d \<Longrightarrow>
        cell_of b2 d = \<lparr>is_hole = d \<in> set holes,
                        holes_around = (if d \<in> set holes then 0 else int (holes_next_to b2 d)),
                        is_opened = False\<rparr>"
    by blast
  from shape2 have wf2: "well_formed b2" and ib2: "in_bounds b2 = in_bounds b0"
    and dims2: "width b2 = sz" "height b2 = sz"
    by (simp_all add: same_shape_def same_shape_in_bounds dims0)
  from first have f0: "in_bounds b0 first_coord" by (simp add: in_bounds_def dims0)
  with ib2 have f2: "in_bounds b2 first_coord" by simp
  from cells2 [OF f0] nf have fsafe: "\<not> is_hole (cell_of b2 first_coord)" by simp
  have op2: "opened b2 = {}" using cells2 ib2 by (auto simp: opened_def)
  have safe2: "safe b2 = {c. in_bounds b2 c} - set holes"
    using cells2 ib2 by (auto simp: safe_def)
  have "card ({c. in_bounds b2 c} - set holes) = card {c. in_bounds b2 c} - card (set holes)"
    using hib ib2 by (intro card_Diff_subset) auto
  also have "\<dots> = nat sz * nat sz - nat holes_num"
    using dist len by (simp add: card_in_bounds dims2 distinct_card)
  finally have "count_cells safe_unopened b2 = nat sz * nat sz - nat holes_num"
    by (simp add: count_safe_unopened [OF wf2] safe2 op2)
  moreover have "int (nat sz * nat sz - nat holes_num) = sz * sz - holes_num"
  proof -
    from sz have "int (nat sz * nat sz) = sz * sz" by simp
    moreover from h1 sq have "holes_num \<le> sz * sz" by simp
    ultimately show ?thesis using h0 by (simp add: of_nat_diff nat_le_iff)
  qed
  ultimately have ok2: "counter_ok b2"
    by (simp add: counter_ok_def cnt2 b0_def)
  have fc2: "fill_complete b2" unfolding fill_complete_iff op2 by simp
  from open_cells_result [OF wf2 f2] obtain b where res: "open_cells b2 first_coord = Inr b"
    and shape: "same_shape b2 b" and holes: "same_holes b2 b"
    and op: "opened b = opened b2 \<union> fill_region b2 first_coord"
    and st: "status b = (if 0 < cells_to_open b2 \<and> cells_to_open b \<le> 0 then WIN else status b2)"
    by blast
  from shape have wf: "well_formed b" and ib: "in_bounds b = in_bounds b2"
    and dims: "width b = sz" "height b = sz"
    by (simp_all add: same_shape_def same_shape_in_bounds dims2)
  have click: "click_on b2 first_coord = Inr b"
    using click_on_safe [OF wf2 f2 fsafe] res by simp
  have init: "Board_init sz holes_num g rnd first_coord = Inr b"
    using sz h1 gb click
    by (simp add: Board_init_def SMALLEST_BOARD_SIZE_def b0_def [symmetric] Let_def)
  have hole_eq: "\<forall>d. in_bounds b2 d \<longrightarrow> is_hole (cell_of b d) = is_hole (cell_of b2 d)"
    using holes by (simp add: same_holes_def)
  have n: "holes_next_to b d = holes_next_to b2 d" for d
    using shape hole_eq by (rule holes_next_to_same)
  have cells: "\<forall>d. in_bounds b d \<longrightarrow>
        is_hole (cell_of b d) = (d \<in> set holes) \<and>
        holes_around (cell_of b d) = (if d \<in> set holes then 0 else int (holes_next_to b d))"
    using holes cells2 ib ib2 n by (simp add: same_holes_def)
  have fo: "first_coord \<in> opened b" using op by (simp add: fill_region.start)
  have stat: "status b = IN_GAME \<or> status b = WIN" using st st2 by (simp add: b0_def)
  from fsafe f2 have "first_coord \<in> safe b2" by (simp add: safe_def)
  then have ok: "counter_ok b" using ok2 res wf2 by (metis counter_ok_open_cells)
  have "0 < cells_to_open b2" using h1 sq by (simp add: cnt2 b0_def)
  moreover from ok have "0 \<le> cells_to_open b" by (simp add: counter_ok_def)
  ultimately have win: "status b = WIN \<longleftrightarrow> cells_to_open b = 0"
    using st st2 by (auto simp: b0_def)
  have fc: "fill_complete b" using wf2 f2 fc2 res by (rule fill_complete_open_cells)
  have "opened b \<subseteq> safe b2"
    using op op2 \<open>first_coord \<in> safe b2\<close> by (auto dest: fill_region_safe)
  then have nh: "no_hole_opened b"
    using safe_same [OF shape holes] by (simp add: no_hole_opened_iff)
  have sub: "set holes \<subseteq> {c. in_bounds b c}" using hib ib ib2 by auto
  from gen len dist nf init wf dims sub cells fo stat win ok fc nh show ?thesis
    unfolding g_def by blast
qed

subsection \<open>The counter on boards reached by play\<close>

lemma count_is_hole:
  assumes wf: "well_formed b" and "set holes \<subseteq> {c. in_bounds b c}" and "distinct holes"
    and "\<forall>d. in_bounds b d \<longrightarrow> is_hole (cell_of b d) = (d \<in> set holes)"
  shows "count_cells is_hole b = length holes"
proof -
  from assms(2,4) have "{c. in_bounds b c \<and> is_hole (cell_of b c)} = set holes" by auto
  with assms(3) show ?thesis by (simp add: count_cells_card [OF wf] distinct_card)
qed

lemma count_is_hole_same:
  assumes "well_formed b" and "same_shape b b'" and "same_holes b b'"
  shows "count_cells is_hole b' = count_cells is_hole b"
proof -
  from assms(2) have wf': "well_formed b'" and ib: "in_bounds b' = in_bounds b"
    by (simp_all add: same_shape_def same_shape_in_bounds)
  from assms(3) ib have "{c. in_bounds b' c \<and> is_hole (cell_of b' c)} = {c. in_bounds b c \<and> is_hole (cell_of b c)}"
    by (auto simp: same_holes_def)
  then show ?thesis by (simp add: count_cells_card [OF assms(1)] count_cells_card [OF wf'])
qed

lemma counter_formula:
  assumes wf: "well_formed b" and ok: "counter_ok b" and nh: "no_hole_opened b"
    and w: "0 \<le> width b" and h: "0 \<le> height b"
  shows "cells_to_open b = width b * height b - int (count_cells is_hole b) - int (count_cells is_opened b)"
proof -
  let ?all = "{c. in_bounds b c}" and ?holes = "{c. in_bounds b c \<and> is_hole (cell_of b c)}"
  have fin: "finite ?all" by (rule finite_in_bounds)
  have "?all = safe b \<union> ?holes" "safe b \<inter> ?holes = {}" by (auto simp: safe_def)
  moreover have "finite (safe b)" "finite ?holes" using fin by (auto simp: safe_def)
  ultimately have all: "card ?all = card (safe b) + card ?holes" by (metis card_Un_disjoint)
  from nh have sub: "opened b \<subseteq> safe b" by (simp add: no_hole_opened_iff)
  then have "card (safe b - opened b) + card (opened b) = card (safe b)"
    using safe_finite [of b]
    by (metis card_Diff_subset card_mono finite_subset le_add_diff_inverse2)
  with all have "card (safe b - opened b) + card ?holes + card (opened b) = card ?all" by simp
  then have "int (card (safe b - opened b)) + int (card ?holes) + int (card (opened b)) = int (card ?all)"
    by (metis of_nat_add)
  moreover have "int (card ?all) = width b * height b"
    using w h by (simp add: card_in_bounds mult.commute)
  ultimately show ?thesis
    using ok by (simp add: counter_ok_def count_safe_unopened [OF wf] count_opened [OF wf]
        count_cells_card [OF wf, of is_hole])
qed

lemma clicks_result:
  assumes "well_formed b" and "counter_ok b" and "no_hole_opened b" and "fill_complete b"
    and "\<forall>c \<in> set cs. in_bounds b c"
  shows "\<exists>b'. clicks cs b = Inr b' \<and> same_shape b b' \<and> same_holes b b' \<and>
     counter_ok b' \<and> no_hole_opened b' \<and> fill_complete b'"
  using assms
proof (induction cs arbitrary: b)
  case Nil
  then show ?case by (simp add: clicks_def same_shape_refl same_holes_refl)
next
  case (Cons c cs)
  from Cons.prems have c: "in_bounds b c" by simp
  from click_on_total [OF Cons.prems(1) c] obtain b1 where
    res: "click_on b c = Inr b1" and shape: "same_shape b b1" and holes: "same_holes b b1"
    by blast
  from shape have wf1: "well_formed b1" and ib: "in_bounds b1 = in_bounds b"
    by (simp_all add: same_shape_def same_shape_in_bounds)
  have ok1: "counter_ok b1" using Cons.prems(1) c Cons.prems(2) res by (rule counter_ok_click_on)
  have nh1: "no_hole_opened b1" using Cons.prems(1) c Cons.prems(3) res by (rule no_hole_opened_click_on)
  have fc1: "fill_complete b1" using Cons.prems(1) c Cons.prems(4) res by (rule fill_complete_click_on)
  from Cons.prems(5) ib have "\<forall>c \<in> set cs. in_bounds b1 c" by simp
  from Cons.IH [OF wf1 ok1 nh1 fc1 this] obtain b' where
    r: "clicks cs b1 = Inr b'" and s: "same_shape b1 b'" and h: "same_holes b1 b'"
    and rest: "counter_ok b'" "no_hole_opened b'" "fill_complete b'"
    by blast
  have "same_holes b b'" using holes h ib by (simp add: same_holes_def)
  with res r rest same_shape_trans [OF shape s] show ?case by (simp add: clicks_def)
qed

subsection \<open>A concrete game\<close>

text \<open>
  The board that \<open>Board(4, 1, HolesGenerator(4, 1), Coord(0, 0))\<close> builds when every
  random draw is \<open>0\<close>: the hole is at \<open>(0, 1)\<close>, and the first click opens \<open>(0, 0)\<close> only.
\<close>

definition no_draws :: "nat \<Rightarrow> nat" where
  "no_draws i = 0"

definition example_board :: Board where
  "example_board =
     \<lparr>width = 4, height = 4, status = IN_GAME, cells_to_open = 14,
      board =
        [[\<lparr>is_hole = False, holes_around = 1, is_opened = True\<rparr>,
          \<lparr>is_hole = False, holes_around = 1, is_opened = False\<rparr>,
          \<lparr>is_hole = False, holes_around = 0, is_opened = False\<rparr>,
          \<lparr>is_hole = False, holes_around = 0, is_opened = False\<rparr>],
         [\<lparr>is_hole = True, holes_around = 0, is_opened = False\<rparr>,
          \<lparr>is_hole = False, holes_around = 1, is_opened = False\<rparr>,
          \<lparr>is_hole = False, holes_around = 0, is_opened = False\<rparr>,
          \<lparr>is_hole = False, holes_around = 0, is_opened = False\<rparr>],
         [\<lparr>is_hole = False, holes_around = 1, is_opened = False\<rparr>,
          \<lparr>is_hole = False, holes_around = 1, is_opened = False\<rparr>,
          \<lparr>is_hole = False, holes_around = 0, is_opened = False\<rparr>,
          \<lparr>is_hole = False, holes_around = 0, is_opened = False\<rparr>],
         [\<lparr>is_hole = False, holes_around = 0, is_opened = False\<rparr>,
          \<lparr>is_hole = False, holes_around = 0, is_opened = False\<rparr>,
          \<lparr>is_hole = False, holes_around = 0, is_opened = False\<rparr>,
          \<lparr>is_hole = False, holes_around = 0, is_opened = False\<rparr>]]\<rparr>"

lemma Board_init_example:
  "Board_init 4 1 (HolesGenerator_init 4 1) no_draws (Coord 0 0) = Inr example_board"
  by code_simp

text \<open>The last entry of the work-list first: a LIFO (depth-first) order.\<close>

definition last_entry :: "Board \<Rightarrow> Coord list \<Rightarrow> nat" where
  "last_entry b queue = length queue - 1"

lemma example_board_well_formed: "well_formed example_board"
  by (simp add: well_formed_def example_board_def)

lemma example_board_counter_ok: "counter_ok example_board"
  by (simp add: counter_ok_def count_cells_def safe_unopened_def example_board_def)

lemma example_board_fill_complete: "fill_complete example_board"
  by code_simp

lemma example_board_no_hole_opened: "no_hole_opened example_board"
  by code_simp

section \<open>The claims\<close>

text \<open>
  Claim C1 (terminal-state monotonicity), as the specification states it: once the status
  is \<open>LOST\<close> or \<open>WON\<close>, a further \<open>click_on\<close> changes neither the status nor an \<open>is_opened\<close>
  flag.  The program has no such guard.  On the board below, lost by a click on the hole,
  a click on \<open>(3, 3)\<close> opens the fourteen cells that were left and sets the status to
  \<open>WIN\<close>.
\<close>

theorem click_on_after_lost_counterexample:
  "Board_init 4 1 (HolesGenerator_init 4 1) no_draws (Coord 0 0) = Inr example_board \<and>
   click_on example_board (Coord 0 1) = Inr (example_board\<lparr>status := LOST\<rparr>) \<and>
   in_bounds (example_board\<lparr>status := LOST\<rparr>) (Coord 3 3) \<and>
   count_cells is_opened (example_board\<lparr>status := LOST\<rparr>) = 1 \<and>
   map_sum id (count_cells is_opened) (click_on (example_board\<lparr>status := LOST\<rparr>) (Coord 3 3)) = Inr 15 \<and>
   map_sum id status (click_on (example_board\<lparr>status := LOST\<rparr>) (Coord 3 3)) = Inr WIN"
  by code_simp

text \<open>
  Claim C1, amended: \<open>click_on\<close> does not look at the status.  On a board whose status is
  \<open>LOST\<close> or \<open>WIN\<close>, a click on a hole sets the status to \<open>LOST\<close> and changes nothing else
  (so it changes nothing at all once the game is lost); a click on a cell that is not a
  hole changes nothing when every cell that is not a hole is already opened, as on a
  board that has been won; and no click closes an opened cell.
\<close>

theorem click_on_after_game_end:
  assumes "well_formed b" and "in_bounds b coord" and "status b = LOST \<or> status b = WIN"
  shows "(is_hole (cell_of b coord) \<longrightarrow> click_on b coord = Inr (b\<lparr>status := LOST\<rparr>)) \<and>
         (\<not> is_hole (cell_of b coord) \<and> count_cells safe_unopened b = 0 \<longrightarrow> click_on b coord = Inr b) \<and>
         (\<exists>b'. click_on b coord = Inr b' \<and> opened b \<subseteq> opened b')"
proof (intro conjI impI)
  assume "is_hole (cell_of b coord)"
  with assms show "click_on b coord = Inr (b\<lparr>status := LOST\<rparr>)" by (simp add: click_on_hole)
next
  assume h: "\<not> is_hole (cell_of b coord) \<and> count_cells safe_unopened b = 0"
  with assms have "coord \<in> safe b" by (simp add: safe_def)
  with assms h have "open_cells b coord = Inr b" by (simp add: open_cells_nothing_left)
  with assms h show "click_on b coord = Inr b" by (simp add: click_on_safe)
next
  from click_on_total [OF assms(1) assms(2)]
  show "\<exists>b'. click_on b coord = Inr b' \<and> opened b \<subseteq> opened b'" by blast
qed

theorem click_on_after_game_end_witness:
  "well_formed (example_board\<lparr>status := LOST\<rparr>) \<and>
   in_bounds (example_board\<lparr>status := LOST\<rparr>) (Coord 0 1) \<and>
   status (example_board\<lparr>status := LOST\<rparr>) = LOST \<and>
   is_hole (cell_of (example_board\<lparr>status := LOST\<rparr>) (Coord 0 1)) \<and>
   click_on (example_board\<lparr>status := LOST\<rparr>) (Coord 0 1) = Inr (example_board\<lparr>status := LOST\<rparr>)"
proof -
  let ?b = "example_board\<lparr>status := LOST\<rparr>"
  have wf: "well_formed ?b" by (simp add: well_formed_def example_board_def)
  have ib: "in_bounds ?b (Coord 0 1)" by (simp add: in_bounds_def example_board_def)
  have st: "status ?b = LOST \<or> status ?b = WIN" by simp
  have hole: "is_hole (cell_of ?b (Coord 0 1))" by (simp add: cell_of_def example_board_def)
  from click_on_after_game_end [OF wf ib st] hole
  have "click_on ?b (Coord 0 1) = Inr (?b\<lparr>status := LOST\<rparr>)" by blast
  with wf ib hole show ?thesis by simp
qed

text \<open>
  Claim C2 (first-click safety), as the specification states it: for every valid
  construction the status right after construction is \<open>IN_PLAY\<close>.  A board of size 4 with
  no hole is a valid construction; its first click opens all sixteen cells, so that the
  constructor returns a board that is already won.
\<close>

theorem first_click_wins_counterexample:
  "\<not> (4::int) \<le> SMALLEST_BOARD_SIZE \<and> (0::int) < 4\<^sup>2 - 9 \<and>
   map_sum id status (Board_init 4 0 (HolesGenerator_init 4 0) no_draws (Coord 0 0)) = Inr WIN"
  by code_simp

text \<open>
  Claim C2, amended: for every valid construction (\<open>size > 3\<close>,
  \<open>0 \<le> hole_count < size\<^sup>2 - 9\<close>, the first coordinate in bounds, the generator made for
  the same size and hole count) the constructor returns a board whose status is never
  \<open>LOST\<close>: it is \<open>IN_GAME\<close>, or \<open>WIN\<close> when the first click has opened every cell that is
  not a hole (the counter is \<open>0\<close>); the cell at the first coordinate is opened and is not
  a hole.
\<close>

theorem first_click_never_lost:
  assumes "3 < sz" and "0 \<le> holes_num" and "holes_num < sz\<^sup>2 - 9"
    and "0 \<le> cx first_coord" and "cx first_coord < sz"
    and "0 \<le> cy first_coord" and "cy first_coord < sz"
  shows "\<exists>b. Board_init sz holes_num (HolesGenerator_init sz holes_num) rnd first_coord = Inr b \<and>
     status b \<noteq> LOST \<and> (status b = IN_GAME \<or> status b = WIN) \<and>
     (status b = WIN \<longleftrightarrow> cells_to_open b = 0) \<and>
     is_opened (cell_of b first_coord) \<and> \<not> is_hole (cell_of b first_coord)"
proof -
  from Board_init_result [OF assms, of rnd] obtain holes b where
    init: "Board_init sz holes_num (HolesGenerator_init sz holes_num) rnd first_coord = Inr b"
    and nf: "first_coord \<notin> set holes"
    and cells: "\<forall>d. in_bounds b d \<longrightarrow> is_hole (cell_of b d) = (d \<in> set holes) \<and>
        holes_around (cell_of b d) = (if d \<in> set holes then 0 else int (holes_next_to b d))"
    and fo: "first_coord \<in> opened b" and st: "status b = IN_GAME \<or> status b = WIN"
    and win: "status b = WIN \<longleftrightarrow> cells_to_open b = 0"
    by blast
  from fo have "in_bounds b first_coord" "is_opened (cell_of b first_coord)"
    by (simp_all add: opened_def)
  with cells nf have "\<not> is_hole (cell_of b first_coord)" by simp
  with init st win \<open>is_opened (cell_of b first_coord)\<close> show ?thesis by auto
qed

theorem first_click_never_lost_witness:
  "(3::int) < 4 \<and> (0::int) \<le> 1 \<and> (1::int) < 4\<^sup>2 - 9 \<and>
   (\<exists>b. Board_init 4 1 (HolesGenerator_init 4 1) no_draws (Coord 0 0) = Inr b \<and>
     status b \<noteq> LOST \<and> (status b = IN_GAME \<or> status b = WIN) \<and>
     (status b = WIN \<longleftrightarrow> cells_to_open b = 0) \<and>
     is_opened (cell_of b (Coord 0 0)) \<and> \<not> is_hole (cell_of b (Coord 0 0)))"
  using first_click_never_lost [of 4 1 "Coord 0 0" no_draws] by simp

text \<open>
  Claim C3 (win condition exactness): on a board in play whose counter is the number of
  unopened cells that are not holes, a \<open>click_on\<close> sets the status to \<open>WIN\<close> exactly when
  the counter was positive and reaches \<open>0\<close>, that is when the click opens the last
  unopened cell that is not a hole; the counter still is that number afterwards, it
  decreases by one for each cell the click opens, and every cell the click opens is not a
  hole and was unopened.
\<close>

theorem win_when_counter_reaches_zero:
  assumes "well_formed b" and "counter_ok b" and "status b = IN_GAME" and "in_bounds b coord"
  shows "\<exists>b'. click_on b coord = Inr b' \<and>
     (status b' = WIN \<longleftrightarrow> 0 < cells_to_open b \<and> cells_to_open b' = 0) \<and>
     cells_to_open b' = int (count_cells safe_unopened b') \<and>
     opened b \<subseteq> opened b' \<and>
     cells_to_open b' = cells_to_open b - int (card (opened b' - opened b)) \<and>
     (\<forall>c \<in> opened b' - opened b. \<not> is_hole (cell_of b c))"
proof (cases "is_hole (cell_of b coord)")
  case True
  from click_on_hole [OF assms(1) assms(4) True] assms(2) assms(3) show ?thesis
    by (auto simp: counter_ok_def)
next
  case False
  with assms(4) have safe: "coord \<in> safe b" by (simp add: safe_def)
  then have R: "fill_region b coord \<subseteq> safe b" by (auto dest: fill_region_safe)
  from open_cells_result [OF assms(1) assms(4)] obtain b' where res: "open_cells b coord = Inr b'"
    and op: "opened b' = opened b \<union> fill_region b coord"
    and cnt: "cells_to_open b' = cells_to_open b - int (card (fill_region b coord - opened b))"
    and st: "status b' = (if 0 < cells_to_open b \<and> cells_to_open b' \<le> 0 then WIN else status b)"
    by blast
  from counter_ok_open_cells [OF assms(1) safe assms(2) res]
  have ok: "cells_to_open b' = int (count_cells safe_unopened b')" by (simp add: counter_ok_def)
  then have nonneg: "0 \<le> cells_to_open b'" by simp
  from op have new: "opened b' - opened b = fill_region b coord - opened b" by auto
  have "status b' = WIN \<longleftrightarrow> 0 < cells_to_open b \<and> cells_to_open b' = 0"
    using st nonneg assms(3) by auto
  moreover have "\<forall>c \<in> opened b' - opened b. \<not> is_hole (cell_of b c)"
    using new R by (auto simp: safe_def)
  ultimately show ?thesis
    using res ok op cnt new click_on_safe [OF assms(1) assms(4) False] by auto
qed

theorem win_when_counter_reaches_zero_witness:
  "well_formed example_board \<and> counter_ok example_board \<and> status example_board = IN_GAME \<and>
   in_bounds example_board (Coord 3 3) \<and>
   (\<exists>b'. click_on example_board (Coord 3 3) = Inr b' \<and>
     (status b' = WIN \<longleftrightarrow> 0 < cells_to_open example_board \<and> cells_to_open b' = 0) \<and>
     cells_to_open b' = int (count_cells safe_unopened b') \<and>
     opened example_board \<subseteq> opened b' \<and>
     cells_to_open b' = cells_to_open example_board - int (card (opened b' - opened example_board)) \<and>
     (\<forall>c \<in> opened b' - opened example_board. \<not> is_hole (cell_of example_board c)))"
proof -
  have st: "status example_board = IN_GAME" by (simp add: example_board_def)
  have ib: "in_bounds example_board (Coord 3 3)" by (simp add: in_bounds_def example_board_def)
  from win_when_counter_reaches_zero [OF example_board_well_formed example_board_counter_ok st ib]
    example_board_well_formed example_board_counter_ok st ib
  show ?thesis by blast
qed

text \<open>
  Claim C4 (flood-fill result): on a board on which every earlier reveal has run to its
  end (as on every board reached by construction and clicks), a click on an in-bounds
  cell that is not a hole leaves opened the cells that were opened before together with
  exactly the least set that contains the clicked coordinate and, with every member
  whose \<open>holes_around\<close> is \<open>0\<close>, its in-bounds neighbours that are not holes.  Members with
  \<open>holes_around > 0\<close> are opened and are not expanded; no member is a hole, and the
  \<open>is_opened\<close> flag of every hole stays as it was.
\<close>

theorem click_on_opens_least_closed_set:
  assumes "well_formed b" and "fill_complete b" and "in_bounds b coord"
    and "\<not> is_hole (cell_of b coord)"
  shows "\<exists>b'. click_on b coord = Inr b' \<and>
     opened b' = opened b \<union> flood b coord \<and>
     coord \<in> flood b coord \<and> flood_closed b (flood b coord) \<and>
     (\<forall>S. coord \<in> S \<and> flood_closed b S \<longrightarrow> flood b coord \<subseteq> S) \<and>
     (\<forall>c \<in> flood b coord. in_bounds b c \<and> \<not> is_hole (cell_of b c)) \<and>
     (\<forall>c. in_bounds b c \<and> is_hole (cell_of b c) \<longrightarrow>
        is_opened (cell_of b' c) = is_opened (cell_of b c))"
proof -
  from assms(3) assms(4) have safe: "coord \<in> safe b" by (simp add: safe_def)
  from open_cells_result [OF assms(1) assms(3)] obtain b' where res: "open_cells b coord = Inr b'"
    and shape: "same_shape b b'"
    and op: "opened b' = opened b \<union> fill_region b coord"
    by blast
  from op have op': "opened b' = opened b \<union> flood b coord"
    by (simp add: opened_flood [OF assms(2)])
  have fs: "\<forall>c \<in> flood b coord. in_bounds b c \<and> \<not> is_hole (cell_of b c)"
    using flood_safe [OF safe] by (auto simp: safe_def)
  have "is_opened (cell_of b' c) = is_opened (cell_of b c)"
    if "in_bounds b c" "is_hole (cell_of b c)" for c
  proof -
    from that fs have "c \<notin> flood b coord" by auto
    with op' have "c \<in> opened b' \<longleftrightarrow> c \<in> opened b" by simp
    with that(1) same_shape_in_bounds [OF shape] show ?thesis by (simp add: opened_def)
  qed
  with res op' fs click_on_safe [OF assms(1) assms(3) assms(4)] flood_closed_flood [of b coord]
    flood_least [of coord _ b]
  show ?thesis by (auto intro: flood.clicked)
qed

theorem click_on_opens_least_closed_set_witness:
  "well_formed example_board \<and> fill_complete example_board \<and> in_bounds example_board (Coord 3 3) \<and>
   \<not> is_hole (cell_of example_board (Coord 3 3)) \<and>
   (\<exists>b'. click_on example_board (Coord 3 3) = Inr b' \<and>
      opened b' = opened example_board \<union> flood example_board (Coord 3 3))"
proof -
  have ib: "in_bounds example_board (Coord 3 3)" by (simp add: in_bounds_def example_board_def)
  have nh: "\<not> is_hole (cell_of example_board (Coord 3 3))"
    by (simp add: cell_of_def example_board_def)
  from click_on_opens_least_closed_set [OF example_board_well_formed example_board_fill_complete ib nh]
    example_board_well_formed example_board_fill_complete ib nh
  show ?thesis by blast
qed

text \<open>
  Claim C5 (adjacency counts): after construction, \<open>holes_around\<close> of every cell that is
  not a hole is the number of its in-bounds neighbours (the up to eight cells next to it,
  diagonals included) whose \<open>is_hole\<close> is true, and \<open>holes_around\<close> of every hole is \<open>0\<close>.
\<close>

theorem holes_around_counts_adjacent_holes:
  assumes "3 < sz" and "0 \<le> holes_num" and "holes_num < sz\<^sup>2 - 9"
    and "0 \<le> cx first_coord" and "cx first_coord < sz"
    and "0 \<le> cy first_coord" and "cy first_coord < sz"
    and "Board_init sz holes_num (HolesGenerator_init sz holes_num) rnd first_coord = Inr b"
    and "in_bounds b c"
  shows "holes_around (cell_of b c) =
     (if is_hole (cell_of b c) then 0
      else int (card {a. in_bounds b a \<and> adjacent c a \<and> is_hole (cell_of b a)}))"
proof -
  from Board_init_result [OF assms(1-7), of rnd] assms(8) obtain holes where
    "\<forall>d. in_bounds b d \<longrightarrow> is_hole (cell_of b d) = (d \<in> set holes) \<and>
        holes_around (cell_of b d) = (if d \<in> set holes then 0 else int (holes_next_to b d))"
    by auto
  with assms(9) show ?thesis by (simp add: holes_next_to_def)
qed

theorem holes_around_counts_adjacent_holes_witness:
  "Board_init 4 1 (HolesGenerator_init 4 1) no_draws (Coord 0 0) = Inr example_board \<and>
   in_bounds example_board (Coord 1 1) \<and>
   holes_around (cell_of example_board (Coord 1 1)) =
     int (card {a. in_bounds example_board a \<and> adjacent (Coord 1 1) a \<and> is_hole (cell_of example_board a)})"
proof -
  have ib: "in_bounds example_board (Coord 1 1)" by (simp add: in_bounds_def example_board_def)
  have nh: "\<not> is_hole (cell_of example_board (Coord 1 1))" by (simp add: cell_of_def example_board_def)
  from holes_around_counts_adjacent_holes [of 4 1 "Coord 0 0" no_draws example_board "Coord 1 1",
      OF _ _ _ _ _ _ _ Board_init_example ib] nh
  have "holes_around (cell_of example_board (Coord 1 1)) =
     int (card {a. in_bounds example_board a \<and> adjacent (Coord 1 1) a \<and> is_hole (cell_of example_board a)})"
    by simp
  with Board_init_example ib show ?thesis by simp
qed

text \<open>
  Claim C6 (construction raises-iff), as the specification states it: construction
  fails if and only if \<open>size \<le> 3\<close> or \<open>size\<^sup>2 - 3\<^sup>2 \<le> hole_count\<close>.  A negative
  \<open>hole_count\<close> passes both checks of the constructor, and the construction then fails in
  \<open>random.sample\<close>.
\<close>

theorem negative_hole_count_counterexample:
  "\<not> ((4::int) \<le> SMALLEST_BOARD_SIZE \<or> (4::int)\<^sup>2 - SMALLEST_BOARD_SIZE\<^sup>2 \<le> - 1) \<and>
   Board_init 4 (- 1) (HolesGenerator_init 4 (- 1)) no_draws (Coord 0 0) = Inl ValueError_sample"
  by code_simp

text \<open>
  Claim C6, amended: construction fails with the board-too-small error when
  \<open>size \<le> 3\<close>, and with the too-many-holes error when \<open>size > 3\<close> and
  \<open>size\<^sup>2 - 3\<^sup>2 \<le> hole_count\<close>; with the generator made for the same size and hole count,
  it fails in the sampling of the holes when \<open>size > 3\<close> and \<open>hole_count < 0\<close>, and it
  succeeds and returns a board for every \<open>size > 3\<close>, \<open>0 \<le> hole_count < size\<^sup>2 - 9\<close> and
  in-bounds first coordinate.  A failure is a value \<open>Inl\<close>, which holds no board.
\<close>

theorem Board_init_raises:
  "(sz \<le> 3 \<longrightarrow>
      Board_init sz holes_num g rnd first_coord = Inl ValueError_size_too_small) \<and>
   (3 < sz \<and> sz\<^sup>2 - 3\<^sup>2 \<le> holes_num \<longrightarrow>
      Board_init sz holes_num g rnd first_coord = Inl ValueError_too_many_holes) \<and>
   (3 < sz \<and> holes_num < 0 \<longrightarrow>
      Board_init sz holes_num (HolesGenerator_init sz holes_num) rnd first_coord = Inl ValueError_sample) \<and>
   (3 < sz \<and> 0 \<le> holes_num \<and> holes_num < sz\<^sup>2 - 9 \<and>
    0 \<le> cx first_coord \<and> cx first_coord < sz \<and> 0 \<le> cy first_coord \<and> cy first_coord < sz \<longrightarrow>
      (\<exists>b. Board_init sz holes_num (HolesGenerator_init sz holes_num) rnd first_coord = Inr b))"
proof (intro conjI impI)
  assume "sz \<le> 3"
  then show "Board_init sz holes_num g rnd first_coord = Inl ValueError_size_too_small"
    by (simp add: Board_init_def SMALLEST_BOARD_SIZE_def)
next
  assume "3 < sz \<and> sz\<^sup>2 - 3\<^sup>2 \<le> holes_num"
  then show "Board_init sz holes_num g rnd first_coord = Inl ValueError_too_many_holes"
    by (simp add: Board_init_def SMALLEST_BOARD_SIZE_def)
next
  assume a: "3 < sz \<and> holes_num < 0"
  then have "3 * 3 < sz * sz" by (intro mult_strict_mono) simp_all
  with a have "\<not> sz\<^sup>2 - 3\<^sup>2 \<le> holes_num" by (simp add: power2_eq_square)
  moreover from a have "generate_holes (HolesGenerator_init sz holes_num) rnd first_coord = Inl ValueError_sample"
    by (simp add: generate_holes_def random_sample_def HolesGenerator_init_def)
  ultimately show "Board_init sz holes_num (HolesGenerator_init sz holes_num) rnd first_coord = Inl ValueError_sample"
    using a by (simp add: Board_init_def SMALLEST_BOARD_SIZE_def Let_def generate_board_def
        generate_holes_of_board_def)
next
  assume "3 < sz \<and> 0 \<le> holes_num \<and> holes_num < sz\<^sup>2 - 9 \<and>
    0 \<le> cx first_coord \<and> cx first_coord < sz \<and> 0 \<le> cy first_coord \<and> cy first_coord < sz"
  then have "3 < sz" "0 \<le> holes_num" "holes_num < sz\<^sup>2 - 9"
    "0 \<le> cx first_coord" "cx first_coord < sz" "0 \<le> cy first_coord" "cy first_coord < sz"
    by simp_all
  from Board_init_result [OF this, of rnd]
  show "\<exists>b. Board_init sz holes_num (HolesGenerator_init sz holes_num) rnd first_coord = Inr b"
    by blast
qed

theorem Board_init_raises_witness:
  "Board_init 3 1 (HolesGenerator_init 3 1) no_draws (Coord 0 0) = Inl ValueError_size_too_small \<and>
   Board_init 4 7 (HolesGenerator_init 4 7) no_draws (Coord 0 0) = Inl ValueError_too_many_holes \<and>
   Board_init 4 (- 1) (HolesGenerator_init 4 (- 1)) no_draws (Coord 0 0) = Inl ValueError_sample \<and>
   (\<exists>b. Board_init 4 6 (HolesGenerator_init 4 6) no_draws (Coord 0 0) = Inr b)"
  using Board_init_raises [of 3 1 "HolesGenerator_init 3 1" no_draws "Coord 0 0"]
    Board_init_raises [of 4 7 "HolesGenerator_init 4 7" no_draws "Coord 0 0"]
    Board_init_raises [of 4 "- 1" "HolesGenerator_init 4 (- 1)" no_draws "Coord 0 0"]
    Board_init_raises [of 4 6 "HolesGenerator_init 4 6" no_draws "Coord 0 0"]
  by simp

text \<open>
  Claim C7 (hole placement): for every valid construction the generator returns exactly
  \<open>hole_count\<close> pairwise different coordinates, each within \<open>[0, width) \<times> [0, height)\<close> and
  none the first coordinate; the constructed board has exactly \<open>hole_count\<close> cells whose
  \<open>is_hole\<close> is true, namely the cells at the returned coordinates, and the cell at the
  first coordinate is not a hole.
\<close>

theorem holes_placed:
  assumes "3 < sz" and "0 \<le> holes_num" and "holes_num < sz\<^sup>2 - 9"
    and "0 \<le> cx first_coord" and "cx first_coord < sz"
    and "0 \<le> cy first_coord" and "cy first_coord < sz"
  shows "\<exists>holes b.
     generate_holes (HolesGenerator_init sz holes_num) rnd first_coord = Inr holes \<and>
     int (length holes) = holes_num \<and> distinct holes \<and>
     (\<forall>c \<in> set holes. 0 \<le> cx c \<and> cx c < sz \<and> 0 \<le> cy c \<and> cy c < sz) \<and>
     first_coord \<notin> set holes \<and>
     Board_init sz holes_num (HolesGenerator_init sz holes_num) rnd first_coord = Inr b \<and>
     int (count_cells is_hole b) = holes_num \<and>
     (\<forall>d. in_bounds b d \<longrightarrow> is_hole (cell_of b d) = (d \<in> set holes)) \<and>
     \<not> is_hole (cell_of b first_coord)"
proof -
  from Board_init_result [OF assms, of rnd] obtain holes b where
    gen: "generate_holes (HolesGenerator_init sz holes_num) rnd first_coord = Inr holes"
    and len: "length holes = nat holes_num" and dist: "distinct holes"
    and nf: "first_coord \<notin> set holes"
    and init: "Board_init sz holes_num (HolesGenerator_init sz holes_num) rnd first_coord = Inr b"
    and wf: "well_formed b" and dims: "width b = sz" "height b = sz"
    and sub: "set holes \<subseteq> {c. in_bounds b c}"
    and cells: "\<forall>d. in_bounds b d \<longrightarrow> is_hole (cell_of b d) = (d \<in> set holes) \<and>
        holes_around (cell_of b d) = (if d \<in> set holes then 0 else int (holes_next_to b d))"
    by blast
  from cells have holes: "\<forall>d. in_bounds b d \<longrightarrow> is_hole (cell_of b d) = (d \<in> set holes)" by simp
  from count_is_hole [OF wf sub dist holes] len assms(2)
  have cnt: "int (count_cells is_hole b) = holes_num" by simp
  from sub dims have range: "\<forall>c \<in> set holes. 0 \<le> cx c \<and> cx c < sz \<and> 0 \<le> cy c \<and> cy c < sz"
    by (auto simp: in_bounds_def)
  from assms(4-7) dims have "in_bounds b first_coord" by (simp add: in_bounds_def)
  with holes nf have "\<not> is_hole (cell_of b first_coord)" by simp
  with gen len assms(2) dist range nf init cnt holes show ?thesis by auto
qed

theorem holes_placed_witness:
  "(3::int) < 4 \<and> (0::int) \<le> 1 \<and> (1::int) < 4\<^sup>2 - 9 \<and>
   (\<exists>holes b.
     generate_holes (HolesGenerator_init 4 1) no_draws (Coord 0 0) = Inr holes \<and>
     int (length holes) = 1 \<and> distinct holes \<and> Coord 0 0 \<notin> set holes \<and>
     Board_init 4 1 (HolesGenerator_init 4 1) no_draws (Coord 0 0) = Inr b \<and>
     int (count_cells is_hole b) = 1 \<and> \<not> is_hole (cell_of b (Coord 0 0)))"
proof -
  from holes_placed [of 4 1 "Coord 0 0" no_draws]
  obtain holes b where
     "generate_holes (HolesGenerator_init 4 1) no_draws (Coord 0 0) = Inr holes"
     "int (length holes) = 1" "distinct holes" "Coord 0 0 \<notin> set holes"
     "Board_init 4 1 (HolesGenerator_init 4 1) no_draws (Coord 0 0) = Inr b"
     "int (count_cells is_hole b) = 1" "\<not> is_hole (cell_of b (Coord 0 0))"
    by auto
  then show ?thesis by auto
qed

text \<open>
  Claim C8 (loss atomicity): when \<open>click_on\<close> targets a cell whose \<open>is_hole\<close> is true on
  a board in play, the status becomes \<open>LOST\<close> and nothing else changes: the grid (so every
  \<open>is_opened\<close> flag) and \<open>cells_to_open\<close> are those of the board before, and the reveal
  does not run.
\<close>

theorem click_on_hole_lost:
  assumes "status b = IN_GAME" and "at b coord = Inr cell" and "is_hole cell"
  shows "click_on b coord = Inr (b\<lparr>status := LOST\<rparr>)"
  using assms by (simp add: click_on_def)

theorem click_on_hole_lost_witness:
  "status example_board = IN_GAME \<and>
   at example_board (Coord 0 1) = Inr \<lparr>is_hole = True, holes_around = 0, is_opened = False\<rparr> \<and>
   click_on example_board (Coord 0 1) = Inr (example_board\<lparr>status := LOST\<rparr>)"
proof -
  have s: "status example_board = IN_GAME" by (simp add: example_board_def)
  have a: "at example_board (Coord 0 1) = Inr \<lparr>is_hole = True, holes_around = 0, is_opened = False\<rparr>"
    by (simp add: example_board_def at_def py_index_def py_pos_def)
  from s a click_on_hole_lost [OF s a] show ?thesis by simp
qed

text \<open>
  Claim C9 (traversal-order independence): on every board and for every in-bounds start
  coordinate, the reveal of the program (a FIFO work-list) and the reveal with any other
  order of the work-list both return, and return the same board: the same opened cells,
  the same status and the same counter.
\<close>

theorem reveal_order_independent:
  assumes "well_formed b" and "in_bounds b coord"
  shows "\<exists>b'. open_cells b coord = Inr b' \<and> open_cells_in_order pick b [coord] = Inr b' \<and>
     opened b' = opened b \<union> fill_region b coord"
proof -
  from open_cells_unique [OF assms, of pick] obtain b' where
    "open_cells b coord = Inr b'" "open_cells_in_order pick b [coord] = Inr b'" by blast
  with open_cells_result [OF assms] show ?thesis by auto
qed

theorem reveal_order_independent_witness:
  "well_formed example_board \<and> in_bounds example_board (Coord 3 3) \<and>
   open_cells_in_order last_entry example_board [Coord 3 3] = open_cells example_board (Coord 3 3) \<and>
   map_sum id status (open_cells example_board (Coord 3 3)) = Inr WIN"
proof -
  have ib: "in_bounds example_board (Coord 3 3)" by (simp add: in_bounds_def example_board_def)
  have win: "map_sum id status (open_cells example_board (Coord 3 3)) = Inr WIN" by code_simp
  from reveal_order_independent [OF example_board_well_formed ib, of last_entry]
    example_board_well_formed ib win
  show ?thesis by auto
qed

text \<open>
  Claim C10 (opened-count invariant): after construction and after every sequence of
  \<open>click_on\<close> calls on in-bounds coordinates, \<open>cells_to_open\<close> is
  \<open>width * height - hole_count\<close> minus the number of cells whose \<open>is_opened\<close> is true; it is
  never negative, and it is the number of cells that are neither holes nor opened.
\<close>

theorem cells_to_open_counts_unopened:
  assumes "3 < sz" and "0 \<le> holes_num" and "holes_num < sz\<^sup>2 - 9"
    and "0 \<le> cx first_coord" and "cx first_coord < sz"
    and "0 \<le> cy first_coord" and "cy first_coord < sz"
    and "\<forall>c \<in> set cs. 0 \<le> cx c \<and> cx c < sz \<and> 0 \<le> cy c \<and> cy c < sz"
  shows "\<exists>b0 b. Board_init sz holes_num (HolesGenerator_init sz holes_num) rnd first_coord = Inr b0 \<and>
     clicks cs b0 = Inr b \<and>
     cells_to_open b = width b * height b - holes_num - int (count_cells is_opened b) \<and>
     0 \<le> cells_to_open b \<and>
     cells_to_open b = int (count_cells safe_unopened b)"
proof -
  from Board_init_result [OF assms(1-7), of rnd] obtain holes b0 where
    len: "length holes = nat holes_num" and dist: "distinct holes"
    and init: "Board_init sz holes_num (HolesGenerator_init sz holes_num) rnd first_coord = Inr b0"
    and wf0: "well_formed b0" and dims0: "width b0 = sz" "height b0 = sz"
    and sub: "set holes \<subseteq> {c. in_bounds b0 c}"
    and cells: "\<forall>d. in_bounds b0 d \<longrightarrow> is_hole (cell_of b0 d) = (d \<in> set holes) \<and>
        holes_around (cell_of b0 d) = (if d \<in> set holes then 0 else int (holes_next_to b0 d))"
    and inv0: "counter_ok b0" "fill_complete b0" "no_hole_opened b0"
    by blast
  from cells have holes: "\<forall>d. in_bounds b0 d \<longrightarrow> is_hole (cell_of b0 d) = (d \<in> set holes)" by simp
  from assms(8) dims0 have "\<forall>c \<in> set cs. in_bounds b0 c" by (simp add: in_bounds_def)
  from clicks_result [OF wf0 inv0(1) inv0(3) inv0(2) this] obtain b where
    res: "clicks cs b0 = Inr b" and shape: "same_shape b0 b" and sh: "same_holes b0 b"
    and ok: "counter_ok b" and nh: "no_hole_opened b"
    by blast
  from shape have wf: "well_formed b" and dims: "width b = sz" "height b = sz"
    by (simp_all add: same_shape_def dims0)
  have "count_cells is_hole b = count_cells is_hole b0"
    using wf0 shape sh by (rule count_is_hole_same)
  also have "\<dots> = length holes" using wf0 sub dist holes by (rule count_is_hole)
  finally have "int (count_cells is_hole b) = holes_num" using len assms(2) by simp
  with counter_formula [OF wf ok nh] dims assms(1)
  have "cells_to_open b = width b * height b - holes_num - int (count_cells is_opened b)" by simp
  moreover from ok have "cells_to_open b = int (count_cells safe_unopened b)"
    by (simp add: counter_ok_def)
  ultimately show ?thesis using init res by auto
qed

theorem cells_to_open_counts_unopened_witness:
  "(3::int) < 4 \<and> (0::int) \<le> 1 \<and> (1::int) < 4\<^sup>2 - 9 \<and>
   (\<exists>b0 b. Board_init 4 1 (HolesGenerator_init 4 1) no_draws (Coord 0 0) = Inr b0 \<and>
     clicks [Coord 0 1, Coord 3 3] b0 = Inr b \<and>
     cells_to_open b = width b * height b - 1 - int (count_cells is_opened b) \<and>
     0 \<le> cells_to_open b \<and>
     cells_to_open b = int (count_cells safe_unopened b))"
  using cells_to_open_counts_unopened [of 4 1 "Coord 0 0" "[Coord 0 1, Coord 3 3]" no_draws]
  by simp

end
